theory Spec2Isabelle
  imports Main "HOL-Library.Char_ord" "HOL-Library.List_Lexorder"
begin

section \<open>The transactional binding layer (\<open>controlledByProps\<close>)\<close>

text \<open>
  The class \<open>ControlledByProps\<close> keeps, next to the component state managed by the UI
  framework, four fields of its own: \<open>transactionLevel\<close>, \<open>flushLevel\<close>, \<open>unlockQueue\<close>
  and \<open>changesExist\<close>. The framework is external, so its part is recorded rather than
  computed:
  \<^item> \<open>state\<close> holds the outputs merged in by \<open>this.setState({[key]: newState})\<close>;
  \<^item> \<open>flushUpdates\<close> counts the updates \<open>this.setState({$flush: {}}, callback)\<close>
    requested so far, \<open>flushCallbacks\<close> those whose completion callback has not run yet;
  \<^item> \<open>unlocked\<close> lists the release tokens that have been invoked, in order.
  Keys, outputs and release tokens are opaque: type variables.
\<close>

datatype protocol_error = EmitWithoutTransaction | EmitWhileFlushing

record ('k, 'o, 'u) host =
  state :: "'k \<rightharpoonup> 'o"
  flushUpdates :: nat
  flushCallbacks :: nat
  transactionLevel :: int
  flushLevel :: int
  unlockQueue :: "'u list"
  changesExist :: bool
  unlocked :: "'u list"

definition newHost :: "('k, 'o, 'u) host" where
  "newHost = \<lparr> state = Map.empty, flushUpdates = 0, flushCallbacks = 0,
               transactionLevel = 0, flushLevel = 0, unlockQueue = [],
               changesExist = False, unlocked = [] \<rparr>"

definition handleChange ::
  "'k \<Rightarrow> 'o \<Rightarrow> ('k, 'o, 'u) host \<Rightarrow> protocol_error + ('k, 'o, 'u) host" where
  "handleChange key newState h =
     (if transactionLevel h = 0 then Inl EmitWithoutTransaction
      else if flushLevel h \<noteq> 0 then Inl EmitWhileFlushing
      else Inr (h\<lparr> changesExist := True, state := (state h)(key \<mapsto> newState) \<rparr>))"

definition handleTransactionStart :: "('k, 'o, 'u) host \<Rightarrow> ('k, 'o, 'u) host" where
  "handleTransactionStart h =
     (let h1 = h\<lparr> transactionLevel := transactionLevel h + 1 \<rparr>
      in if flushLevel h1 > 0 then h1\<lparr> flushLevel := flushLevel h1 + 1 \<rparr> else h1)"

definition handleTransactionEnd :: "'u \<Rightarrow> ('k, 'o, 'u) host \<Rightarrow> ('k, 'o, 'u) host" where
  "handleTransactionEnd unlock h =
     (let h1 = (if flushLevel h > 0 then h\<lparr> flushLevel := flushLevel h - 1 \<rparr> else h);
          h2 = h1\<lparr> unlockQueue := unlockQueue h1 @ [unlock] \<rparr>;
          h3 = h2\<lparr> transactionLevel := transactionLevel h2 - 1 \<rparr>
      in if transactionLevel h3 = 0 \<and> changesExist h3
         then h3\<lparr> flushLevel := flushLevel h3 + 1, changesExist := False,
                  flushUpdates := Suc (flushUpdates h3),
                  flushCallbacks := Suc (flushCallbacks h3) \<rparr>
         else h3)"

text \<open>The completion callback handed to the flush update.\<close>

definition flushCallback :: "('k, 'o, 'u) host \<Rightarrow> ('k, 'o, 'u) host" where
  "flushCallback h =
     h\<lparr> flushLevel := flushLevel h - 1,
        unlocked := unlocked h @ unlockQueue h,
        unlockQueue := [] \<rparr>"

text \<open>The framework reports that a requested flush update has completed.\<close>

definition updateCompleted :: "('k, 'o, 'u) host \<Rightarrow> ('k, 'o, 'u) host" where
  "updateCompleted h =
     (if flushCallbacks h = 0 then h
      else flushCallback (h\<lparr> flushCallbacks := flushCallbacks h - 1 \<rparr>))"

text \<open>What a bound controller, or the framework, can send to the host.\<close>

datatype ('k, 'o, 'u) signal =
    OnTransactionStart
  | OnChange 'k 'o
  | OnTransactionEnd 'u
  | UpdateCompleted

fun deliver ::
  "('k, 'o, 'u) signal \<Rightarrow> ('k, 'o, 'u) host \<Rightarrow> protocol_error + ('k, 'o, 'u) host" where
  "deliver OnTransactionStart h = Inr (handleTransactionStart h)"
| "deliver (OnChange key newState) h = handleChange key newState h"
| "deliver (OnTransactionEnd unlock) h = Inr (handleTransactionEnd unlock h)"
| "deliver UpdateCompleted h = Inr (updateCompleted h)"

text \<open>A thrown error ends the run: nothing after it is delivered.\<close>

fun deliverAll ::
  "('k, 'o, 'u) signal list \<Rightarrow> ('k, 'o, 'u) host \<Rightarrow> protocol_error + ('k, 'o, 'u) host" where
  "deliverAll [] h = Inr h"
| "deliverAll (s # ss) h =
     (case deliver s h of Inl e \<Rightarrow> Inl e | Inr h' \<Rightarrow> deliverAll ss h')"

text \<open>
  The schedules in which controller A (key \<open>kA\<close>, release token \<open>uA\<close>) and controller B
  overlap as start A, start B, end A, end B, each emitting one change inside its own
  transaction.
\<close>

definition overlappingSchedules ::
  "'k \<Rightarrow> 'o \<Rightarrow> 'u \<Rightarrow> 'k \<Rightarrow> 'o \<Rightarrow> 'u \<Rightarrow> ('k, 'o, 'u) signal list list" where
  "overlappingSchedules kA oA uA kB oB uB =
     [ [OnTransactionStart, OnChange kA oA, OnTransactionStart, OnChange kB oB,
        OnTransactionEnd uA, OnTransactionEnd uB],
       [OnTransactionStart, OnChange kA oA, OnTransactionStart,
        OnTransactionEnd uA, OnChange kB oB, OnTransactionEnd uB],
       [OnTransactionStart, OnTransactionStart, OnChange kA oA, OnChange kB oB,
        OnTransactionEnd uA, OnTransactionEnd uB],
       [OnTransactionStart, OnTransactionStart, OnChange kB oB, OnChange kA oA,
        OnTransactionEnd uA, OnTransactionEnd uB],
       [OnTransactionStart, OnTransactionStart, OnChange kA oA,
        OnTransactionEnd uA, OnChange kB oB, OnTransactionEnd uB] ]"

section \<open>The generic controller engine (\<open>SimpleController\<close>)\<close>

text \<open>
  A private field \<open>$x\<close> of the class is the record field \<open>c_x\<close>. Two fields record what
  the instance does to its surroundings: \<open>c_trace\<close> lists the listener callbacks it has
  invoked (the listener is named by the number it got when subscribing, which stands for
  the identity of its callbacks object), \<open>c_log\<close> lists its \<open>console.error\<close> calls.
  Listeners only observe: a callback does not call back into the controller.
  Inputs, states and outputs are opaque: type variables. Action names are strings, the
  keys of the class's \<open>actions\<close> object.
\<close>

datatype diagnostic =
    SetStateOnDestroyed
  | ActionOnDestroyed
  | ActionAlreadyRunning string
  | SetOnDestroyed

datatype 'o event = TransactionStart nat | Change nat 'o | TransactionEnd nat

record ('e, 's, 'o) controller =
  c_env :: 'e
  c_isDestroyed :: bool
  c_listeners :: "nat list"
  c_state :: 's
  c_runningActions :: "string set"
  c_runningEnv :: bool
  c_transactionLevel :: int
  c_notificationIsQueued :: bool
  c_nextListener :: nat
  c_trace :: "'o event list"
  c_log :: "diagnostic list"

text \<open>
  The methods a subclass may override. They read \<open>this.env\<close> and \<open>this.state\<close>, which are
  passed as the first two arguments. \<open>hasEnvWillUpdate\<close> says whether the subclass has an
  \<open>envWillUpdate\<close> method at all.
\<close>

record ('e, 's, 'o) hooks =
  doesEnvDiffer :: "'e \<Rightarrow> 's \<Rightarrow> 'e \<Rightarrow> bool"
  doesStateDiffer :: "'e \<Rightarrow> 's \<Rightarrow> 's \<Rightarrow> bool"
  outputOf :: "'e \<Rightarrow> 's \<Rightarrow> 'o"
  hasEnvWillUpdate :: bool

text \<open>The methods as \<open>SimpleController\<close> itself has them.\<close>

definition simpleHooks :: "('e, 's, 'e \<times> 's) hooks" where
  "simpleHooks = \<lparr> doesEnvDiffer = (\<lambda>_ _ _. True), doesStateDiffer = (\<lambda>_ _ _. True),
                   outputOf = (\<lambda>e s. (e, s)), hasEnvWillUpdate = False \<rparr>"

definition newController :: "'e \<Rightarrow> 's \<Rightarrow> ('e, 's, 'o) controller" where
  "newController env initialState =
     \<lparr> c_env = env, c_isDestroyed = False, c_listeners = [], c_state = initialState,
       c_runningActions = {}, c_runningEnv = False, c_transactionLevel = 0,
       c_notificationIsQueued = False, c_nextListener = 0, c_trace = [], c_log = [] \<rparr>"

text \<open>
  \<open>$runningActions\<close> is a plain object \<open>{}\<close>, so the lookup \<open>this.$runningActions[key]\<close>
  finds, next to the keys the instance has set to \<open>true\<close>, every property the object
  inherits from \<open>Object.prototype\<close>: functions, and for \<open>__proto__\<close> the prototype
  itself, all of them truthy. \<open>Object.prototype\<close> belongs to the host;
  \<open>objectPrototypeNames\<close> are the properties it has in browsers and Node.js.
  \<open>Object.keys\<close>, which \<open>$isRunning\<close> uses, lists own keys only.
\<close>

definition objectPrototypeNames :: "string list" where
  "objectPrototypeNames =
     [''constructor'', ''__defineGetter__'', ''__defineSetter__'', ''hasOwnProperty'',
      ''__lookupGetter__'', ''__lookupSetter__'', ''isPrototypeOf'',
      ''propertyIsEnumerable'', ''toString'', ''valueOf'', ''__proto__'',
      ''toLocaleString'']"

definition lookupRunning :: "('e, 's, 'o) controller \<Rightarrow> string \<Rightarrow> bool" where
  "lookupRunning c key \<longleftrightarrow> key \<in> c_runningActions c \<or> key \<in> set objectPrototypeNames"

definition isRunning :: "('e, 's, 'o) controller \<Rightarrow> bool" where
  "isRunning c \<longleftrightarrow> c_runningEnv c \<or> c_runningActions c \<noteq> {}"

definition doIncreaseTransactionLevel ::
  "('e, 's, 'o) controller \<Rightarrow> ('e, 's, 'o) controller" where
  "doIncreaseTransactionLevel c =
     (let c1 = c\<lparr> c_transactionLevel := c_transactionLevel c + 1 \<rparr>
      in if c_transactionLevel c1 = 1
         then c1\<lparr> c_trace := c_trace c1 @ map TransactionStart (c_listeners c1) \<rparr>
         else c1)"

definition doDecreaseTransactionLevel ::
  "('e, 's, 'o) controller \<Rightarrow> ('e, 's, 'o) controller" where
  "doDecreaseTransactionLevel c =
     (let c1 = c\<lparr> c_transactionLevel := c_transactionLevel c - 1 \<rparr>
      in if c_transactionLevel c1 = 0
         then c1\<lparr> c_trace := c_trace c1 @ map TransactionEnd (c_listeners c1) \<rparr>
         else c1)"

definition doNotify ::
  "('e, 's, 'o) hooks \<Rightarrow> ('e, 's, 'o) controller \<Rightarrow> ('e, 's, 'o) controller" where
  "doNotify H c =
     (if \<not> isRunning c
      then c\<lparr> c_trace := c_trace c @
                  map (\<lambda>l. Change l (outputOf H (c_env c) (c_state c))) (c_listeners c),
              c_notificationIsQueued := False \<rparr>
      else c\<lparr> c_notificationIsQueued := True \<rparr>)"

definition doStateUpdate ::
  "('e, 's, 'o) hooks \<Rightarrow> 's \<Rightarrow> ('e, 's, 'o) controller \<Rightarrow>
   bool \<times> ('e, 's, 'o) controller" where
  "doStateUpdate H s c =
     (if doesStateDiffer H (c_env c) (c_state c) s then (True, c\<lparr> c_state := s \<rparr>)
      else (False, c))"

definition setState ::
  "('e, 's, 'o) hooks \<Rightarrow> 's \<Rightarrow> ('e, 's, 'o) controller \<Rightarrow> ('e, 's, 'o) controller"
  where
  "setState H s c =
     (if c_isDestroyed c then c\<lparr> c_log := c_log c @ [SetStateOnDestroyed] \<rparr>
      else case doStateUpdate H s c of
             (True, c1) \<Rightarrow>
               doDecreaseTransactionLevel (doNotify H (doIncreaseTransactionLevel c1))
           | (False, c1) \<Rightarrow> c1)"

text \<open>
  \<open>$doAction(key, fn, ...args)\<close>: the effect of \<open>fn.apply(this, args)\<close> on the instance is
  the argument \<open>fn\<close>.
\<close>

definition doAction ::
  "('e, 's, 'o) hooks \<Rightarrow> string \<Rightarrow>
   (('e, 's, 'o) controller \<Rightarrow> ('e, 's, 'o) controller) \<Rightarrow>
   ('e, 's, 'o) controller \<Rightarrow> ('e, 's, 'o) controller" where
  "doAction H key fn c =
     (if c_isDestroyed c then c\<lparr> c_log := c_log c @ [ActionOnDestroyed] \<rparr>
      else if lookupRunning c key
      then c\<lparr> c_log := c_log c @ [ActionAlreadyRunning key] \<rparr>
      else
        let c1 = doIncreaseTransactionLevel c;
            c2 = c1\<lparr> c_runningActions := insert key (c_runningActions c1) \<rparr>;
            c3 = fn c2;
            c4 = c3\<lparr> c_runningActions := c_runningActions c3 - {key} \<rparr>;
            c5 = (if c_notificationIsQueued c4 then doNotify H c4 else c4)
        in doDecreaseTransactionLevel c5)"

text \<open>
  \<open>$doEnvUpdate(env)\<close> returns the pair \<open>[didEnvChange, didStateChange]\<close>; the effect of
  \<open>this.envWillUpdate(env)\<close> on the instance is the argument \<open>envWillUpdate\<close>.
\<close>

definition doEnvUpdate ::
  "('e, 's, 'o) hooks \<Rightarrow> 'e \<Rightarrow>
   (('e, 's, 'o) controller \<Rightarrow> ('e, 's, 'o) controller) \<Rightarrow>
   ('e, 's, 'o) controller \<Rightarrow> (bool \<times> bool) \<times> ('e, 's, 'o) controller" where
  "doEnvUpdate H env envWillUpdate c =
     (if doesEnvDiffer H (c_env c) (c_state c) env then
        if \<not> c_runningEnv c \<and> hasEnvWillUpdate H then
          let oldState = c_state c;
              c1 = envWillUpdate (c\<lparr> c_runningEnv := True \<rparr>);
              c2 = c1\<lparr> c_runningEnv := False \<rparr>;
              didStateChange = doesStateDiffer H (c_env c2) (c_state c2) oldState
          in ((True, didStateChange), c2\<lparr> c_env := env \<rparr>)
        else ((True, False), c\<lparr> c_env := env \<rparr>)
      else ((False, False), c))"

text \<open>The public operations \<open>$$set\<close>, \<open>$$get\<close>, \<open>$$subscribe\<close> and \<open>$$destroy\<close>.\<close>

definition ctrl_set ::
  "('e, 's, 'o) hooks \<Rightarrow> 'e \<Rightarrow>
   (('e, 's, 'o) controller \<Rightarrow> ('e, 's, 'o) controller) \<Rightarrow>
   ('e, 's, 'o) controller \<Rightarrow> ('e, 's, 'o) controller" where
  "ctrl_set H env envWillUpdate c =
     (if c_isDestroyed c then c\<lparr> c_log := c_log c @ [SetOnDestroyed] \<rparr>
      else
        let c1 = doIncreaseTransactionLevel c;
            (changed, c2) = doEnvUpdate H env envWillUpdate c1;
            c3 = (if fst changed then doNotify H c2 else c2)
        in doDecreaseTransactionLevel c3)"

definition ctrl_get :: "('e, 's, 'o) hooks \<Rightarrow> ('e, 's, 'o) controller \<Rightarrow> 'o" where
  "ctrl_get H c = outputOf H (c_env c) (c_state c)"

text \<open>
  \<open>$$subscribe\<close> returns the function that removes the callbacks object just pushed; here
  it returns the number under which the listener was pushed, and \<open>unsubscribe\<close> is that
  function.
\<close>

definition ctrl_subscribe ::
  "('e, 's, 'o) controller \<Rightarrow> nat \<times> ('e, 's, 'o) controller" where
  "ctrl_subscribe c =
     (c_nextListener c,
      c\<lparr> c_listeners := c_listeners c @ [c_nextListener c],
         c_nextListener := Suc (c_nextListener c) \<rparr>)"

definition unsubscribe ::
  "nat \<Rightarrow> ('e, 's, 'o) controller \<Rightarrow> ('e, 's, 'o) controller" where
  "unsubscribe l c = c\<lparr> c_listeners := remove1 l (c_listeners c) \<rparr>"

definition ctrl_destroy :: "('e, 's, 'o) controller \<Rightarrow> ('e, 's, 'o) controller" where
  "ctrl_destroy c = c\<lparr> c_listeners := [], c_isDestroyed := True \<rparr>"

text \<open>
  What the body of an action or of \<open>envWillUpdate\<close> does to the instance is a sequence of
  calls to \<open>setState\<close>, to actions and to \<open>set\<close>, each action call with the body it runs
  and each \<open>set\<close> with the body \<open>envWillUpdate\<close> would run for it: a call tree.
\<close>

datatype ('e, 's) call =
    SetState 's
  | Action string "('e, 's) call list"
  | Set 'e "('e, 's) call list"

fun exec ::
  "('e, 's, 'o) hooks \<Rightarrow> ('e, 's) call \<Rightarrow>
   ('e, 's, 'o) controller \<Rightarrow> ('e, 's, 'o) controller"
and execAll ::
  "('e, 's, 'o) hooks \<Rightarrow> ('e, 's) call list \<Rightarrow>
   ('e, 's, 'o) controller \<Rightarrow> ('e, 's, 'o) controller" where
  "exec H (SetState s) c = setState H s c"
| "exec H (Action key body) c = doAction H key (\<lambda>c'. execAll H body c') c"
| "exec H (Set env body) c = ctrl_set H env (\<lambda>c'. execAll H body c') c"
| "execAll H [] c = c"
| "execAll H (x # xs) c = execAll H xs (exec H x c)"

text \<open>What a client of the controller can do with it.\<close>

datatype ('e, 's) operation =
    Call "('e, 's) call"
  | Get
  | Subscribe
  | Unsubscribe nat
  | Destroy

fun perform ::
  "('e, 's, 'o) hooks \<Rightarrow> ('e, 's) operation \<Rightarrow>
   ('e, 's, 'o) controller \<Rightarrow> ('e, 's, 'o) controller" where
  "perform H (Call x) c = exec H x c"
| "perform H Get c = c"
| "perform H Subscribe c = snd (ctrl_subscribe c)"
| "perform H (Unsubscribe l) c = unsubscribe l c"
| "perform H Destroy c = ctrl_destroy c"

text \<open>Operations one after the other.\<close>

fun performAll ::
  "('e, 's, 'o) hooks \<Rightarrow> ('e, 's) operation list \<Rightarrow>
   ('e, 's, 'o) controller \<Rightarrow> ('e, 's, 'o) controller" where
  "performAll H [] c = c"
| "performAll H (p # ps) c = performAll H ps (perform H p c)"

text \<open>
  A subclass whose inputs are pairs and whose \<open>doesEnvDiffer\<close> compares the first
  components only.
\<close>

definition firstComponentHooks :: "('a \<times> 'b, 's, ('a \<times> 'b) \<times> 's) hooks" where
  "firstComponentHooks = simpleHooks\<lparr> doesEnvDiffer := (\<lambda>env _ new. fst new \<noteq> fst env) \<rparr>"

text \<open>A subclass whose two comparison hooks always answer that nothing differs.\<close>

definition neverDifferHooks :: "('e, 's, 'e \<times> 's) hooks" where
  "neverDifferHooks =
     simpleHooks\<lparr> doesEnvDiffer := (\<lambda>_ _ _. False), doesStateDiffer := (\<lambda>_ _ _. False) \<rparr>"

text \<open>The \<open>console.error\<close> call a destroyed instance answers an operation with, if any.\<close>

fun refusal :: "('e, 's) operation \<Rightarrow> diagnostic list" where
  "refusal (Call (SetState s)) = [SetStateOnDestroyed]"
| "refusal (Call (Action key body)) = [ActionOnDestroyed]"
| "refusal (Call (Set env body)) = [SetOnDestroyed]"
| "refusal _ = []"

text \<open>
  A call tree with the body of every invocation of the action \<open>k\<close> taken out, at any
  depth.
\<close>

fun withoutReentry :: "string \<Rightarrow> ('e, 's) call \<Rightarrow> ('e, 's) call" where
  "withoutReentry k (SetState s) = SetState s"
| "withoutReentry k (Action key body) =
     (if key = k then Action key [] else Action key (map (withoutReentry k) body))"
| "withoutReentry k (Set env body) = Set env (map (withoutReentry k) body)"

text \<open>Subclasses whose two comparison hooks give the same answer every time.\<close>

definition alwaysDiffers :: "('e, 's, 'o) hooks \<Rightarrow> bool" where
  "alwaysDiffers H \<longleftrightarrow>
     (\<forall>env state new. doesEnvDiffer H env state new) \<and>
     (\<forall>env state new. doesStateDiffer H env state new)"

definition neverDiffers :: "('e, 's, 'o) hooks \<Rightarrow> bool" where
  "neverDiffers H \<longleftrightarrow>
     (\<forall>env state new. \<not> doesEnvDiffer H env state new) \<and>
     (\<forall>env state new. \<not> doesStateDiffer H env state new)"

text \<open>
  The state between two calls from outside: alive, nothing running, no transaction open,
  no notification held back. \<open>newController\<close> is in it and every call leaves it so.
\<close>

definition idle :: "('e, 's, 'o) controller \<Rightarrow> bool" where
  "idle c \<longleftrightarrow>
     \<not> c_isDestroyed c \<and> c_runningActions c = {} \<and> \<not> c_runningEnv c \<and>
     c_transactionLevel c = 0 \<and> \<not> c_notificationIsQueued c"

text \<open>
  Whether a call made while the actions \<open>R\<close> are running reaches a \<open>setState\<close> or a
  \<open>set\<close>: directly, or through the body of an action that the lookup in
  \<open>$runningActions\<close> does not turn away.
\<close>

fun requestsNotification :: "string set \<Rightarrow> ('e, 's) call \<Rightarrow> bool" where
  "requestsNotification R (SetState s) \<longleftrightarrow> True"
| "requestsNotification R (Set env body) \<longleftrightarrow> True"
| "requestsNotification R (Action key body) \<longleftrightarrow>
     key \<notin> R \<and> key \<notin> set objectPrototypeNames \<and>
     list_ex (requestsNotification (insert key R)) body"

text \<open>
  The fields that a completed call leaves as it found them: the set of running actions,
  the \<open>envWillUpdate\<close> flag, the listeners, the destroyed flag and the transaction level.
\<close>

definition frame :: "('e, 's, 'o) controller \<Rightarrow> ('e, 's, 'o) controller \<Rightarrow> bool" where
  "frame c c' \<longleftrightarrow>
     c_runningActions c' = c_runningActions c \<and> c_runningEnv c' = c_runningEnv c \<and>
     c_listeners c' = c_listeners c \<and> c_isDestroyed c' = c_isDestroyed c \<and>
     c_transactionLevel c' = c_transactionLevel c \<and> c_nextListener c' = c_nextListener c"

text \<open>The listener callbacks that deliver an output.\<close>

fun isChange :: "'o event \<Rightarrow> bool" where
  "isChange (Change l out) = True"
| "isChange _ = False"

text \<open>
  Whether a call gets past the guards of its entry point and so brackets its work with
  \<open>$doIncreaseTransactionLevel\<close> and \<open>$doDecreaseTransactionLevel\<close>.
\<close>

fun startsTransaction ::
  "('e, 's, 'o) hooks \<Rightarrow> ('e, 's) call \<Rightarrow> ('e, 's, 'o) controller \<Rightarrow> bool" where
  "startsTransaction H (SetState s) c \<longleftrightarrow>
     \<not> c_isDestroyed c \<and> doesStateDiffer H (c_env c) (c_state c) s"
| "startsTransaction H (Action key body) c \<longleftrightarrow>
     \<not> c_isDestroyed c \<and> \<not> lookupRunning c key"
| "startsTransaction H (Set env body) c \<longleftrightarrow> \<not> c_isDestroyed c"

section \<open>The batch instantiation helper (\<open>instantiateDefaultControllers\<close>)\<close>

text \<open>
  The part of \<open>instantiateDefaultControllers\<close> that runs when it is called, up to the
  \<open>return\<close> of the decorator. An entry of \<open>controllerClasses\<close> either passes the test
  \<open>prototype instanceof Controller\<close> or does not. The argument is a single function, or
  an object listed by its own keys in order.

  \<open>console\<close> belongs to the host, not to this repository: it is a parameter, given by the
  names of the methods it has. Calling a method it does not have is a \<open>TypeError\<close>.
  \<open>standardConsole\<close> has the methods of the Console standard, which browsers and Node.js
  provide.
\<close>

datatype js_error = TypeError string | ExpectedControllerClass string

datatype 'c candidate = ControllerClass 'c | NotAControllerClass

datatype 'c classesArgument =
    SingleClass "'c candidate"
  | ClassMap "(string \<times> 'c candidate) list"

definition standardConsole :: "string list" where
  "standardConsole =
     [''assert'', ''clear'', ''count'', ''countReset'', ''debug'', ''dir'', ''dirxml'',
      ''error'', ''group'', ''groupCollapsed'', ''groupEnd'', ''info'', ''log'', ''table'',
      ''time'', ''timeEnd'', ''timeLog'', ''trace'', ''warn'']"

definition consoleCall ::
  "string list \<Rightarrow> string \<Rightarrow> string \<Rightarrow> js_error + (string \<times> string)" where
  "consoleCall console method message =
     (if method \<in> set console then Inr (method, message)
      else Inl (TypeError (''console.'' @ method @ '' is not a function'')))"

text \<open>The loop that throws at the first key whose entry is not a controller class.\<close>

fun checkClasses :: "(string \<times> 'c candidate) list \<Rightarrow> js_error + unit" where
  "checkClasses [] = Inr ()"
| "checkClasses ((key, ControllerClass cls) # rest) = checkClasses rest"
| "checkClasses ((key, NotAControllerClass) # rest) = Inl (ExpectedControllerClass key)"

text \<open>
  The result is the error thrown, or what was printed on the console together with the
  classes by key that the returned decorator closes over.
\<close>

definition instantiateDefaultControllers ::
  "string list \<Rightarrow> 'c classesArgument \<Rightarrow>
   js_error + ((string \<times> string) list \<times> (string \<times> 'c candidate) list)" where
  "instantiateDefaultControllers console controllerClasses =
     (let classes = (case controllerClasses of
                       SingleClass cls \<Rightarrow> [(''controller'', cls)]
                     | ClassMap m \<Rightarrow> m);
          keys = map fst classes;
          warned = (if length keys = 0
                    then (case consoleCall console ''warning''
                                 ''instantiateDefaultControllers: called without any classes'' of
                            Inl e \<Rightarrow> Inl e
                          | Inr line \<Rightarrow> Inr [line])
                    else Inr [])
      in case warned of
           Inl e \<Rightarrow> Inl e
         | Inr printed \<Rightarrow>
             (case checkClasses classes of
                Inl e \<Rightarrow> Inl e
              | Inr _ \<Rightarrow> Inr (printed, classes)))"

section \<open>The responsive dual-mode layout controller\<close>

text \<open>
  The modes are the four pane names the component declares for \<open>defaultMode\<close>:
  \<open>'source'\<close>, \<open>'view'\<close>, \<open>'transformed'\<close>, \<open>'console'\<close>. An object that maps some of
  them to \<open>true\<close> is the set of its keys. Widths are numbers or \<open>undefined\<close>; a comparison
  \<open><=\<close> with \<open>undefined\<close> on either side is false.
\<close>

datatype mode = Source | View | Transformed | Console

fun modeName :: "mode \<Rightarrow> string" where
  "modeName Source = ''source''"
| "modeName View = ''view''"
| "modeName Transformed = ''transformed''"
| "modeName Console = ''console''"

fun lessEq :: "int option \<Rightarrow> int option \<Rightarrow> bool" where
  "lessEq (Some a) (Some b) \<longleftrightarrow> a \<le> b"
| "lessEq _ _ \<longleftrightarrow> False"

subsection \<open>The version with \<open>props\<close> and \<open>state\<close> (\<open>output\<close>)\<close>

record dualModeProps =
  defaultSecondary :: mode
  defaultMode :: mode
  maxSinglePaneWidth :: "int option"
  width :: "int option"

definition dualModeActions :: "string list" where
  "dualModeActions =
     [''selectMode'', ''selectTransformed'', ''selectView'', ''selectConsole'',
      ''selectSource'']"

text \<open>
  \<open>output()\<close> returns \<open>Object.assign(modes, this.actions)\<close>: the mode keys, and the five
  actions under their names. The two parts are returned side by side.
\<close>

definition dualModeOutput :: "dualModeProps \<Rightarrow> mode \<Rightarrow> mode set \<times> string list" where
  "dualModeOutput props primary =
     (let modes =
            (if width props \<noteq> None \<and> lessEq (width props) (maxSinglePaneWidth props)
             then insert primary {}
             else insert (if primary = Source then defaultSecondary props else primary)
                    (insert Source {}))
      in (modes, dualModeActions))"

subsection \<open>The version on \<open>SimpleController\<close> (\<open>_recalc\<close>)\<close>

text \<open>\<open>Array.prototype.join(',')\<close>.\<close>

fun join :: "string list \<Rightarrow> string" where
  "join [] = []"
| "join [x] = x"
| "join (x # y # ys) = x @ '','' @ join (y # ys)"

text \<open>\<open>Object.keys(modes).sort()\<close>.\<close>

definition sortedKeys :: "mode set \<Rightarrow> string list" where
  "sortedKeys m = sorted_list_of_set (modeName ` m)"

definition modesAreEqual :: "mode set \<Rightarrow> mode set \<Rightarrow> bool" where
  "modesAreEqual oldModes newModes \<longleftrightarrow>
     join (sortedKeys oldModes) = join (sortedKeys newModes)"

text \<open>
  The fields \<open>_recalc\<close> reads and writes on \<open>this\<close>. \<open>this.modes\<close> and \<open>this.listeners\<close>
  may be \<open>undefined\<close>: \<open>Object.keys\<close> and \<open>for ... of\<close> then throw. \<open>dm_heard\<close> records
  the calls \<open>listener(this.modes)\<close>.
\<close>

record dualMode =
  dm_width :: "int option"
  dm_maxSinglePaneWidth :: "int option"
  dm_primary :: mode
  dm_defaultSecondary :: mode
  dm_modes :: "mode set option"
  dm_listeners :: "nat list option"
  dm_heard :: "(nat \<times> mode set) list"

text \<open>The local \<open>newModes\<close> of \<open>_recalc\<close>.\<close>

definition newModes :: "dualMode \<Rightarrow> mode set" where
  "newModes r =
     (if dm_width r \<noteq> None \<and> lessEq (dm_width r) (dm_maxSinglePaneWidth r)
      then insert (dm_primary r) {}
      else insert (if dm_primary r = Source then dm_defaultSecondary r else dm_primary r)
             (insert Source {}))"

definition recalc :: "dualMode \<Rightarrow> js_error + dualMode" where
  "recalc r =
     (case dm_modes r of
        None \<Rightarrow> Inl (TypeError ''Cannot convert undefined or null to object'')
      | Some oldModes \<Rightarrow>
          if \<not> modesAreEqual (newModes r) oldModes then
            (case dm_listeners r of
               None \<Rightarrow> Inl (TypeError ''this.listeners is not iterable'')
             | Some ls \<Rightarrow>
                 Inr (r\<lparr> dm_modes := Some (newModes r),
                         dm_heard := dm_heard r @ map (\<lambda>l. (l, newModes r)) ls \<rparr>))
          else Inr r)"

text \<open>The condition under which only one pane is shown.\<close>

definition singlePane :: "int option \<Rightarrow> int option \<Rightarrow> bool" where
  "singlePane w m \<longleftrightarrow> (\<exists>a b. w = Some a \<and> m = Some b \<and> a \<le> b)"

section \<open>Basic facts about the controller engine\<close>

text \<open>What the three primitive steps do to each field.\<close>

lemma doIncrease_fields:
  "c_env (doIncreaseTransactionLevel c) = c_env c"
  "c_isDestroyed (doIncreaseTransactionLevel c) = c_isDestroyed c"
  "c_listeners (doIncreaseTransactionLevel c) = c_listeners c"
  "c_state (doIncreaseTransactionLevel c) = c_state c"
  "c_runningActions (doIncreaseTransactionLevel c) = c_runningActions c"
  "c_runningEnv (doIncreaseTransactionLevel c) = c_runningEnv c"
  "c_transactionLevel (doIncreaseTransactionLevel c) = c_transactionLevel c + 1"
  "c_notificationIsQueued (doIncreaseTransactionLevel c) = c_notificationIsQueued c"
  "c_nextListener (doIncreaseTransactionLevel c) = c_nextListener c"
  "c_log (doIncreaseTransactionLevel c) = c_log c"
  "c_trace (doIncreaseTransactionLevel c) =
     (if c_transactionLevel c = 0 then c_trace c @ map TransactionStart (c_listeners c)
      else c_trace c)"
  by (simp_all add: doIncreaseTransactionLevel_def Let_def)

lemma doDecrease_fields:
  "c_env (doDecreaseTransactionLevel c) = c_env c"
  "c_isDestroyed (doDecreaseTransactionLevel c) = c_isDestroyed c"
  "c_listeners (doDecreaseTransactionLevel c) = c_listeners c"
  "c_state (doDecreaseTransactionLevel c) = c_state c"
  "c_runningActions (doDecreaseTransactionLevel c) = c_runningActions c"
  "c_runningEnv (doDecreaseTransactionLevel c) = c_runningEnv c"
  "c_transactionLevel (doDecreaseTransactionLevel c) = c_transactionLevel c - 1"
  "c_notificationIsQueued (doDecreaseTransactionLevel c) = c_notificationIsQueued c"
  "c_nextListener (doDecreaseTransactionLevel c) = c_nextListener c"
  "c_log (doDecreaseTransactionLevel c) = c_log c"
  "c_trace (doDecreaseTransactionLevel c) =
     (if c_transactionLevel c = 1 then c_trace c @ map TransactionEnd (c_listeners c)
      else c_trace c)"
  by (simp_all add: doDecreaseTransactionLevel_def Let_def)

lemma isRunning_simps:
  "isRunning (doIncreaseTransactionLevel c) = isRunning c"
  "isRunning (doDecreaseTransactionLevel c) = isRunning c"
  by (simp_all add: isRunning_def doIncrease_fields doDecrease_fields)

lemma doNotify_fields:
  "c_env (doNotify H c) = c_env c"
  "c_isDestroyed (doNotify H c) = c_isDestroyed c"
  "c_listeners (doNotify H c) = c_listeners c"
  "c_state (doNotify H c) = c_state c"
  "c_runningActions (doNotify H c) = c_runningActions c"
  "c_runningEnv (doNotify H c) = c_runningEnv c"
  "c_transactionLevel (doNotify H c) = c_transactionLevel c"
  "c_notificationIsQueued (doNotify H c) = isRunning c"
  "c_nextListener (doNotify H c) = c_nextListener c"
  "c_log (doNotify H c) = c_log c"
  "c_trace (doNotify H c) =
     (if isRunning c then c_trace c
      else c_trace c @ map (\<lambda>l. Change l (outputOf H (c_env c) (c_state c))) (c_listeners c))"
  by (simp_all add: doNotify_def)

text \<open>Every call, whatever it nests, restores the frame.\<close>

lemma frame_refl: "frame c c"
  by (simp add: frame_def)

lemma frame_trans: "frame a b \<Longrightarrow> frame b c \<Longrightarrow> frame a c"
  by (simp add: frame_def)

lemma frame_setState: "frame c (setState H s c)"
  by (simp add: frame_def setState_def doStateUpdate_def doNotify_fields
      doIncrease_fields doDecrease_fields)

lemma frame_doAction:
  assumes "\<And>c'. frame c' (fn c')"
  shows "frame c (doAction H key fn c)"
proof -
  let ?c2 = "(doIncreaseTransactionLevel c)\<lparr> c_runningActions :=
               insert key (c_runningActions (doIncreaseTransactionLevel c)) \<rparr>"
  have "frame ?c2 (fn ?c2)" by (rule assms)
  then show ?thesis
    by (simp add: frame_def doAction_def lookupRunning_def Let_def doNotify_fields
        doIncrease_fields doDecrease_fields)
qed

lemma frame_ctrl_set:
  assumes "\<And>c'. frame c' (fn c')"
  shows "frame c (ctrl_set H env fn c)"
proof -
  let ?c1 = "(doIncreaseTransactionLevel c)\<lparr> c_runningEnv := True \<rparr>"
  have "frame ?c1 (fn ?c1)" by (rule assms)
  then show ?thesis
    by (simp add: frame_def ctrl_set_def doEnvUpdate_def Let_def doNotify_fields
        doIncrease_fields doDecrease_fields)
qed

lemma frame_exec: "frame c (exec H x c)"
  and frame_execAll: "frame c (execAll H xs c)"
proof (induction H x c and H xs c rule: exec_execAll.induct)
  case (1 H s c)
  show ?case by (simp add: frame_setState)
next
  case (2 H key body c)
  then show ?case by (simp add: frame_doAction)
next
  case (3 H env body c)
  then show ?case by (simp add: frame_ctrl_set)
next
  case (4 H c)
  show ?case by (simp add: frame_refl)
next
  case (5 H x xs c)
  then show ?case by (auto intro: frame_trans)
qed

text \<open>
  Inside an open transaction a call, whatever it nests, invokes no callback other than
  \<open>change\<close>.
\<close>

lemma execAll_append: "execAll H (xs @ ys) c = execAll H ys (execAll H xs c)"
  by (induction xs arbitrary: c) simp_all

lemma frame_levelD: "frame c c' \<Longrightarrow> c_transactionLevel c' = c_transactionLevel c"
  by (simp add: frame_def)

lemma setState_nested_trace:
  assumes "1 \<le> c_transactionLevel c"
  shows "\<exists>cs. c_trace (setState H s c) = c_trace c @ cs \<and> list_all isChange cs"
  using assms
  by (auto simp add: setState_def doStateUpdate_def doNotify_fields doIncrease_fields
      doDecrease_fields list_all_iff)

lemma doAction_nested_trace:
  assumes lev: "1 \<le> c_transactionLevel c"
    and fr: "\<And>c'. frame c' (fn c')"
    and body: "\<And>c'. 1 \<le> c_transactionLevel c' \<Longrightarrow>
                 \<exists>cs. c_trace (fn c') = c_trace c' @ cs \<and> list_all isChange cs"
  shows "\<exists>cs. c_trace (doAction H key fn c) = c_trace c @ cs \<and> list_all isChange cs"
proof -
  let ?c2 = "(doIncreaseTransactionLevel c)\<lparr> c_runningActions :=
               insert key (c_runningActions (doIncreaseTransactionLevel c)) \<rparr>"
  have l2: "c_transactionLevel ?c2 = c_transactionLevel c + 1"
    by (simp add: doIncrease_fields)
  have t2: "c_trace ?c2 = c_trace c"
    using lev by (simp add: doIncrease_fields)
  from body [of ?c2] lev l2 obtain cs where
    cs: "c_trace (fn ?c2) = c_trace ?c2 @ cs" "list_all isChange cs"
    by auto
  have l3: "c_transactionLevel (fn ?c2) = c_transactionLevel c + 1"
    using frame_levelD [OF fr [of ?c2]] l2 by simp
  show ?thesis
    using lev cs t2 l3
    by (auto simp add: doAction_def Let_def doNotify_fields doDecrease_fields list_all_iff)
qed

lemma ctrl_set_nested_trace:
  assumes lev: "1 \<le> c_transactionLevel c"
    and fr: "\<And>c'. frame c' (fn c')"
    and body: "\<And>c'. 1 \<le> c_transactionLevel c' \<Longrightarrow>
                 \<exists>cs. c_trace (fn c') = c_trace c' @ cs \<and> list_all isChange cs"
  shows "\<exists>cs. c_trace (ctrl_set H env fn c) = c_trace c @ cs \<and> list_all isChange cs"
proof -
  let ?c1 = "(doIncreaseTransactionLevel c)\<lparr> c_runningEnv := True \<rparr>"
  have l1: "c_transactionLevel ?c1 = c_transactionLevel c + 1"
    by (simp add: doIncrease_fields)
  have t1: "c_trace ?c1 = c_trace c"
    using lev by (simp add: doIncrease_fields)
  from body [of ?c1] lev l1 obtain cs where
    cs: "c_trace (fn ?c1) = c_trace ?c1 @ cs" "list_all isChange cs"
    by auto
  have l3: "c_transactionLevel (fn ?c1) = c_transactionLevel c + 1"
    using frame_levelD [OF fr [of ?c1]] l1 by simp
  show ?thesis
    using lev cs t1 l3
    by (auto simp add: ctrl_set_def doEnvUpdate_def Let_def doNotify_fields doIncrease_fields
        doDecrease_fields list_all_iff)
qed

lemma exec_nested_trace:
  "1 \<le> c_transactionLevel c \<Longrightarrow>
     \<exists>cs. c_trace (exec H x c) = c_trace c @ cs \<and> list_all isChange cs"
  and execAll_nested_trace:
  "1 \<le> c_transactionLevel c \<Longrightarrow>
     \<exists>cs. c_trace (execAll H xs c) = c_trace c @ cs \<and> list_all isChange cs"
proof (induction H x c and H xs c rule: exec_execAll.induct)
  case (1 H s c)
  then show ?case by (simp add: setState_nested_trace)
next
  case (2 H key body c)
  show ?case
    unfolding exec.simps
    by (rule doAction_nested_trace [OF "2.prems"]) (simp_all add: frame_execAll "2.IH")
next
  case (3 H env body c)
  show ?case
    unfolding exec.simps
    by (rule ctrl_set_nested_trace [OF "3.prems"]) (simp_all add: frame_execAll "3.IH")
next
  case (4 H c)
  show ?case by simp
next
  case (5 H x xs c)
  from "5.IH"(1) [OF "5.prems"] obtain cs1 where
    a: "c_trace (exec H x c) = c_trace c @ cs1" "list_all isChange cs1" by auto
  have "1 \<le> c_transactionLevel (exec H x c)"
    using frame_levelD [OF frame_exec [of c H x]] "5.prems" by simp
  from "5.IH"(2) [OF this] obtain cs2 where
    b: "c_trace (execAll H xs (exec H x c)) = c_trace (exec H x c) @ cs2"
       "list_all isChange cs2" by auto
  show ?case using a b by simp
qed

text \<open>
  The body of an action or of \<open>envWillUpdate\<close> matters only through what it does to the
  instance it is started on; a call of an action that is marked as running does not look
  at its body at all.
\<close>

lemma doAction_cong_body:
  assumes "fn ((doIncreaseTransactionLevel c)\<lparr> c_runningActions :=
               insert key (c_runningActions (doIncreaseTransactionLevel c)) \<rparr>) =
           fn' ((doIncreaseTransactionLevel c)\<lparr> c_runningActions :=
               insert key (c_runningActions (doIncreaseTransactionLevel c)) \<rparr>)"
  shows "doAction H key fn c = doAction H key fn' c"
  using assms by (simp add: doAction_def Let_def)

lemma ctrl_set_cong_body:
  assumes "fn ((doIncreaseTransactionLevel c)\<lparr> c_runningEnv := True \<rparr>) =
           fn' ((doIncreaseTransactionLevel c)\<lparr> c_runningEnv := True \<rparr>)"
  shows "ctrl_set H env fn c = ctrl_set H env fn' c"
  using assms by (simp add: ctrl_set_def doEnvUpdate_def Let_def)

lemma lookupRunning_member: "key \<in> c_runningActions c \<Longrightarrow> lookupRunning c key"
  by (simp add: lookupRunning_def)

lemma doAction_rejected:
  "lookupRunning c key \<Longrightarrow> doAction H key fn c = doAction H key fn' c"
  by (simp add: doAction_def)

lemma exec_withoutReentry:
  "k \<in> c_runningActions c \<Longrightarrow> exec H (withoutReentry k x) c = exec H x c"
  and execAll_withoutReentry:
  "k \<in> c_runningActions c \<Longrightarrow> execAll H (map (withoutReentry k) xs) c = execAll H xs c"
proof (induction H x c and H xs c rule: exec_execAll.induct)
  case (1 H s c)
  show ?case by simp
next
  case (2 H key body c)
  show ?case
  proof (cases "key = k")
    case True
    have "exec H (Action k []) c = exec H (Action k body) c"
      unfolding exec.simps
      by (rule doAction_rejected) (rule lookupRunning_member [OF "2.prems"])
    with True show ?thesis by simp
  next
    case False
    have "execAll H (map (withoutReentry k) body)
            ((doIncreaseTransactionLevel c)\<lparr> c_runningActions :=
               insert key (c_runningActions (doIncreaseTransactionLevel c)) \<rparr>) =
          execAll H body
            ((doIncreaseTransactionLevel c)\<lparr> c_runningActions :=
               insert key (c_runningActions (doIncreaseTransactionLevel c)) \<rparr>)"
      by (rule "2.IH") (simp add: "2.prems" doIncrease_fields)
    then have "doAction H key (\<lambda>c'. execAll H (map (withoutReentry k) body) c') c =
               doAction H key (\<lambda>c'. execAll H body c') c"
      by (rule doAction_cong_body)
    with False show ?thesis by simp
  qed
next
  case (3 H env body c)
  have "execAll H (map (withoutReentry k) body)
          ((doIncreaseTransactionLevel c)\<lparr> c_runningEnv := True \<rparr>) =
        execAll H body ((doIncreaseTransactionLevel c)\<lparr> c_runningEnv := True \<rparr>)"
    by (rule "3.IH") (simp add: "3.prems" doIncrease_fields)
  then have "ctrl_set H env (\<lambda>c'. execAll H (map (withoutReentry k) body) c') c =
             ctrl_set H env (\<lambda>c'. execAll H body c') c"
    by (rule ctrl_set_cong_body)
  then show ?case by simp
next
  case (4 H c)
  show ?case by simp
next
  case (5 H x xs c)
  have "k \<in> c_runningActions (exec H x c)"
    using frame_exec [of c H x] "5.prems" by (simp add: frame_def)
  with "5.IH" "5.prems" show ?case by simp
qed

text \<open>A destroyed instance answers every operation by at most a logged error.\<close>

lemma perform_destroyed:
  assumes "c_isDestroyed c"
  shows "c_isDestroyed (perform H p c) \<and>
         c_state (perform H p c) = c_state c \<and>
         c_env (perform H p c) = c_env c \<and>
         c_trace (perform H p c) = c_trace c \<and>
         c_transactionLevel (perform H p c) = c_transactionLevel c \<and>
         c_log (perform H p c) = c_log c @ refusal p"
proof (cases p)
  case (Call x)
  then show ?thesis
    using assms
    by (cases x) (simp_all add: setState_def doAction_def ctrl_set_def)
next
  case Get
  then show ?thesis using assms by simp
next
  case Subscribe
  then show ?thesis using assms by (simp add: ctrl_subscribe_def)
next
  case (Unsubscribe l)
  then show ?thesis using assms by (simp add: unsubscribe_def)
next
  case Destroy
  then show ?thesis using assms by (simp add: ctrl_destroy_def)
qed

lemma performAll_destroyed:
  assumes "c_isDestroyed c"
  shows "c_isDestroyed (performAll H ps c) \<and>
         c_state (performAll H ps c) = c_state c \<and>
         c_env (performAll H ps c) = c_env c \<and>
         c_trace (performAll H ps c) = c_trace c \<and>
         c_transactionLevel (performAll H ps c) = c_transactionLevel c \<and>
         c_log (performAll H ps c) = c_log c @ concat (map refusal ps)"
  using assms
proof (induction ps arbitrary: c)
  case Nil
  then show ?case by simp
next
  case (Cons p ps)
  from perform_destroyed [OF Cons.prems, of H p]
  have d: "c_isDestroyed (perform H p c)" and
       e: "c_state (perform H p c) = c_state c" "c_env (perform H p c) = c_env c"
          "c_trace (perform H p c) = c_trace c"
          "c_transactionLevel (perform H p c) = c_transactionLevel c"
          "c_log (perform H p c) = c_log c @ refusal p"
    by simp_all
  from Cons.IH [OF d] e show ?case by simp
qed

text \<open>
  While an action or \<open>envWillUpdate\<close> is running inside an open transaction, no call
  invokes a callback.
\<close>

lemma setState_silent:
  "isRunning c \<Longrightarrow> 1 \<le> c_transactionLevel c \<Longrightarrow> c_trace (setState H s c) = c_trace c"
  by (simp add: setState_def doStateUpdate_def doNotify_fields doIncrease_fields
      doDecrease_fields isRunning_simps isRunning_def)

lemma doAction_silent:
  assumes run: "isRunning c" and lev: "1 \<le> c_transactionLevel c"
    and fr: "\<And>c'. frame c' (fn c')"
    and body: "\<And>c'. isRunning c' \<Longrightarrow> 1 \<le> c_transactionLevel c' \<Longrightarrow>
                 c_trace (fn c') = c_trace c'"
  shows "c_trace (doAction H key fn c) = c_trace c"
proof -
  let ?c2 = "(doIncreaseTransactionLevel c)\<lparr> c_runningActions :=
               insert key (c_runningActions (doIncreaseTransactionLevel c)) \<rparr>"
  have r2: "isRunning ?c2" by (simp add: isRunning_def)
  have l2: "c_transactionLevel ?c2 = c_transactionLevel c + 1"
    by (simp add: doIncrease_fields)
  have t2: "c_trace ?c2 = c_trace c"
    using lev by (simp add: doIncrease_fields)
  have t3: "c_trace (fn ?c2) = c_trace c"
    using body [OF r2] l2 lev t2 by simp
  have f3: "c_transactionLevel (fn ?c2) = c_transactionLevel c + 1"
       "c_runningActions (fn ?c2) = insert key (c_runningActions c)"
       "c_runningEnv (fn ?c2) = c_runningEnv c"
    using fr [of ?c2] by (simp_all add: frame_def doIncrease_fields)
  show ?thesis
  proof (cases "c_isDestroyed c \<or> lookupRunning c key")
    case True
    then show ?thesis by (auto simp add: doAction_def)
  next
    case False
    then have "key \<notin> c_runningActions c" by (simp add: lookupRunning_def)
    then have "isRunning ((fn ?c2)\<lparr> c_runningActions := c_runningActions (fn ?c2) - {key} \<rparr>)"
      using run f3 by (simp add: isRunning_def)
    then show ?thesis
      using False t3 f3 lev
      by (simp add: doAction_def Let_def doNotify_fields doDecrease_fields)
  qed
qed

lemma ctrl_set_silent:
  assumes run: "isRunning c" and lev: "1 \<le> c_transactionLevel c"
    and fr: "\<And>c'. frame c' (fn c')"
    and body: "\<And>c'. isRunning c' \<Longrightarrow> 1 \<le> c_transactionLevel c' \<Longrightarrow>
                 c_trace (fn c') = c_trace c'"
  shows "c_trace (ctrl_set H env fn c) = c_trace c"
proof -
  let ?c1 = "(doIncreaseTransactionLevel c)\<lparr> c_runningEnv := True \<rparr>"
  have r1: "isRunning ?c1" by (simp add: isRunning_def)
  have l1: "c_transactionLevel ?c1 = c_transactionLevel c + 1"
    by (simp add: doIncrease_fields)
  have t1: "c_trace ?c1 = c_trace c"
    using lev by (simp add: doIncrease_fields)
  have t3: "c_trace (fn ?c1) = c_trace c"
    using body [OF r1] l1 lev t1 by simp
  have f3: "c_transactionLevel (fn ?c1) = c_transactionLevel c + 1"
       "c_runningActions (fn ?c1) = c_runningActions c"
    using fr [of ?c1] by (simp_all add: frame_def doIncrease_fields)
  show ?thesis
    using run t3 f3 lev
    by (auto simp add: ctrl_set_def doEnvUpdate_def Let_def doNotify_fields
        doIncrease_fields doDecrease_fields isRunning_def)
qed

lemma exec_silent:
  "isRunning c \<Longrightarrow> 1 \<le> c_transactionLevel c \<Longrightarrow> c_trace (exec H x c) = c_trace c"
  and execAll_silent:
  "isRunning c \<Longrightarrow> 1 \<le> c_transactionLevel c \<Longrightarrow> c_trace (execAll H xs c) = c_trace c"
proof (induction H x c and H xs c rule: exec_execAll.induct)
  case (1 H s c)
  then show ?case by (simp add: setState_silent)
next
  case (2 H key body c)
  show ?case
    unfolding exec.simps
    by (rule doAction_silent [OF "2.prems"]) (simp_all add: frame_execAll "2.IH")
next
  case (3 H env body c)
  show ?case
    unfolding exec.simps
    by (rule ctrl_set_silent [OF "3.prems"]) (simp_all add: frame_execAll "3.IH")
next
  case (4 H c)
  show ?case by simp
next
  case (5 H x xs c)
  have "isRunning (exec H x c)" "1 \<le> c_transactionLevel (exec H x c)"
    using frame_exec [of c H x] "5.prems" by (simp_all add: frame_def isRunning_def)
  with "5.IH" "5.prems" show ?case by simp
qed

text \<open>
  With hooks that always report a difference, a call made while something is running
  leaves a notification held back exactly when one was held back already or the call
  reaches a \<open>setState\<close> or a \<open>set\<close>.
\<close>

lemma setState_queued:
  assumes "alwaysDiffers H" "\<not> c_isDestroyed c" "isRunning c"
  shows "c_notificationIsQueued (setState H s c)"
  using assms
  by (simp add: alwaysDiffers_def setState_def doStateUpdate_def doNotify_fields
      doIncrease_fields doDecrease_fields isRunning_simps isRunning_def)

lemma doAction_queued:
  assumes live: "\<not> c_isDestroyed c" and run: "isRunning c"
    and fr: "\<And>c'. frame c' (fn c')"
    and body: "\<And>c'. \<not> c_isDestroyed c' \<Longrightarrow> isRunning c' \<Longrightarrow>
                 c_notificationIsQueued (fn c') = (c_notificationIsQueued c' \<or> B (c_runningActions c'))"
  shows "c_notificationIsQueued (doAction H key fn c) =
         (c_notificationIsQueued c \<or>
          \<not> lookupRunning c key \<and> B (insert key (c_runningActions c)))"
proof (cases "lookupRunning c key")
  case True
  then show ?thesis by (simp add: doAction_def)
next
  case notLooked: False
  then have False: "key \<notin> c_runningActions c" by (simp add: lookupRunning_def)
  let ?c2 = "(doIncreaseTransactionLevel c)\<lparr> c_runningActions :=
               insert key (c_runningActions (doIncreaseTransactionLevel c)) \<rparr>"
  have r2: "isRunning ?c2" "\<not> c_isDestroyed ?c2"
    using live by (simp_all add: isRunning_def doIncrease_fields)
  have q3: "c_notificationIsQueued (fn ?c2) =
            (c_notificationIsQueued c \<or> B (insert key (c_runningActions c)))"
    using body [OF r2(2) r2(1)] by (simp add: doIncrease_fields)
  have f3: "c_runningActions (fn ?c2) = insert key (c_runningActions c)"
       "c_runningEnv (fn ?c2) = c_runningEnv c"
    using fr [of ?c2] by (simp_all add: frame_def doIncrease_fields)
  have "isRunning ((fn ?c2)\<lparr> c_runningActions := c_runningActions (fn ?c2) - {key} \<rparr>)"
    using run f3 False by (simp add: isRunning_def)
  then show ?thesis
    using notLooked live q3
    by (simp add: doAction_def Let_def doNotify_fields doDecrease_fields)
qed

lemma ctrl_set_queued:
  assumes diff: "alwaysDiffers H" and live: "\<not> c_isDestroyed c" and run: "isRunning c"
    and fr: "\<And>c'. frame c' (fn c')"
  shows "c_notificationIsQueued (ctrl_set H env fn c)"
proof -
  let ?c1 = "(doIncreaseTransactionLevel c)\<lparr> c_runningEnv := True \<rparr>"
  have f3: "c_runningActions (fn ?c1) = c_runningActions c"
    using fr [of ?c1] by (simp_all add: frame_def doIncrease_fields)
  show ?thesis
    using diff live run f3
    by (auto simp add: alwaysDiffers_def ctrl_set_def doEnvUpdate_def Let_def doNotify_fields
        doIncrease_fields doDecrease_fields isRunning_def)
qed

lemma exec_queued:
  "alwaysDiffers H \<Longrightarrow> \<not> c_isDestroyed c \<Longrightarrow> isRunning c \<Longrightarrow>
     c_notificationIsQueued (exec H x c) =
       (c_notificationIsQueued c \<or> requestsNotification (c_runningActions c) x)"
  and execAll_queued:
  "alwaysDiffers H \<Longrightarrow> \<not> c_isDestroyed c \<Longrightarrow> isRunning c \<Longrightarrow>
     c_notificationIsQueued (execAll H xs c) =
       (c_notificationIsQueued c \<or> list_ex (requestsNotification (c_runningActions c)) xs)"
proof (induction H x c and H xs c rule: exec_execAll.induct)
  case (1 H s c)
  then show ?case by (simp add: setState_queued)
next
  case (2 H key body c)
  have "c_notificationIsQueued (doAction H key (\<lambda>c'. execAll H body c') c) =
        (c_notificationIsQueued c \<or> \<not> lookupRunning c key \<and>
           list_ex (requestsNotification (insert key (c_runningActions c))) body)"
    by (rule doAction_queued [where B = "\<lambda>R. list_ex (requestsNotification R) body"])
       (simp_all add: "2.prems" frame_execAll "2.IH")
  then show ?case by (simp add: lookupRunning_def)
next
  case (3 H env body c)
  have "c_notificationIsQueued (ctrl_set H env (\<lambda>c'. execAll H body c') c)"
    by (rule ctrl_set_queued) (simp_all add: "3.prems" frame_execAll)
  then show ?case by simp
next
  case (4 H c)
  show ?case by simp
next
  case (5 H x xs c)
  have f: "\<not> c_isDestroyed (exec H x c)" "isRunning (exec H x c)"
       "c_runningActions (exec H x c) = c_runningActions c"
    using frame_exec [of c H x] "5.prems" by (simp_all add: frame_def isRunning_def)
  from "5.IH"(1) [OF "5.prems"] "5.IH"(2) [OF "5.prems"(1) f(1) f(2)] f(3)
  show ?case by auto
qed

text \<open>
  With hooks that never report a difference, a call inside an open transaction invokes
  no callback and holds no notification back.
\<close>

lemma setState_unheard:
  "neverDiffers H \<Longrightarrow> c_trace (setState H s c) = c_trace c \<and>
     c_notificationIsQueued (setState H s c) = c_notificationIsQueued c"
  by (simp add: neverDiffers_def setState_def doStateUpdate_def)

lemma doAction_unheard:
  assumes lev: "1 \<le> c_transactionLevel c" and nq: "\<not> c_notificationIsQueued c"
    and fr: "\<And>c'. frame c' (fn c')"
    and body: "\<And>c'. 1 \<le> c_transactionLevel c' \<Longrightarrow> \<not> c_notificationIsQueued c' \<Longrightarrow>
                 c_trace (fn c') = c_trace c' \<and> \<not> c_notificationIsQueued (fn c')"
  shows "c_trace (doAction H key fn c) = c_trace c \<and>
         \<not> c_notificationIsQueued (doAction H key fn c)"
proof -
  let ?c2 = "(doIncreaseTransactionLevel c)\<lparr> c_runningActions :=
               insert key (c_runningActions (doIncreaseTransactionLevel c)) \<rparr>"
  have l2: "1 \<le> c_transactionLevel ?c2" "\<not> c_notificationIsQueued ?c2"
    using lev nq by (simp_all add: doIncrease_fields)
  have t2: "c_trace ?c2 = c_trace c"
    using lev by (simp add: doIncrease_fields)
  have b: "c_trace (fn ?c2) = c_trace c" "\<not> c_notificationIsQueued (fn ?c2)"
    using body [OF l2] t2 by simp_all
  have f3: "c_transactionLevel (fn ?c2) = c_transactionLevel c + 1"
    using fr [of ?c2] by (simp_all add: frame_def doIncrease_fields)
  show ?thesis
    using nq lev b f3
    by (simp add: doAction_def Let_def doNotify_fields doDecrease_fields)
qed

lemma ctrl_set_unheard:
  assumes "neverDiffers H" and "1 \<le> c_transactionLevel c"
  shows "c_trace (ctrl_set H env fn c) = c_trace c \<and>
         c_notificationIsQueued (ctrl_set H env fn c) = c_notificationIsQueued c"
  using assms
  by (simp add: neverDiffers_def ctrl_set_def doEnvUpdate_def Let_def
      doIncrease_fields doDecrease_fields)

lemma exec_unheard:
  "neverDiffers H \<Longrightarrow> 1 \<le> c_transactionLevel c \<Longrightarrow> \<not> c_notificationIsQueued c \<Longrightarrow>
     c_trace (exec H x c) = c_trace c \<and> \<not> c_notificationIsQueued (exec H x c)"
  and execAll_unheard:
  "neverDiffers H \<Longrightarrow> 1 \<le> c_transactionLevel c \<Longrightarrow> \<not> c_notificationIsQueued c \<Longrightarrow>
     c_trace (execAll H xs c) = c_trace c \<and> \<not> c_notificationIsQueued (execAll H xs c)"
proof (induction H x c and H xs c rule: exec_execAll.induct)
  case (1 H s c)
  then show ?case by (simp add: setState_unheard)
next
  case (2 H key body c)
  show ?case
    unfolding exec.simps
    by (rule doAction_unheard [OF "2.prems"(2,3)]) (simp_all add: frame_execAll "2.IH" "2.prems"(1))
next
  case (3 H env body c)
  then show ?case by (simp add: ctrl_set_unheard)
next
  case (4 H c)
  then show ?case by simp
next
  case (5 H x xs c)
  have "1 \<le> c_transactionLevel (exec H x c)"
    using frame_exec [of c H x] "5.prems" by (simp_all add: frame_def)
  with "5.IH" "5.prems" show ?case by simp
qed

text \<open>
  Calls from outside, on an idle controller: what \<open>set\<close> and an action make the
  listeners hear, for hooks that always and that never report a difference; and that
  every such call ends in an idle controller again.
\<close>

lemma set_top_differs:
  assumes idle: "idle c" and diff: "alwaysDiffers H"
  shows "c_trace (exec H (Set env body) c) =
           c_trace c @ map TransactionStart (c_listeners c) @
           map (\<lambda>l. Change l (ctrl_get H (exec H (Set env body) c))) (c_listeners c) @
           map TransactionEnd (c_listeners c)"
proof -
  let ?c1 = "(doIncreaseTransactionLevel c)\<lparr> c_runningEnv := True \<rparr>"
  have r1: "isRunning ?c1" "1 \<le> c_transactionLevel ?c1"
    using idle by (simp_all add: isRunning_def idle_def doIncrease_fields)
  have t3: "c_trace (execAll H body ?c1) = c_trace c @ map TransactionStart (c_listeners c)"
    using execAll_silent [OF r1, of H body] idle by (simp add: idle_def doIncrease_fields)
  have f3: "c_transactionLevel (execAll H body ?c1) = 1"
       "c_runningActions (execAll H body ?c1) = {}"
       "c_listeners (execAll H body ?c1) = c_listeners c"
    using frame_execAll [of ?c1 H body] idle
    by (simp_all add: frame_def idle_def doIncrease_fields)
  show ?thesis
    using idle diff t3 f3
    by (simp add: idle_def alwaysDiffers_def ctrl_set_def doEnvUpdate_def ctrl_get_def Let_def
        doNotify_fields doIncrease_fields doDecrease_fields isRunning_def)
qed

lemma action_top_differs:
  assumes idle: "idle c" and diff: "alwaysDiffers H"
    and own: "key \<notin> set objectPrototypeNames"
  shows "c_trace (exec H (Action key body) c) =
           c_trace c @ map TransactionStart (c_listeners c) @
           (if list_ex (requestsNotification {key}) body
            then map (\<lambda>l. Change l (ctrl_get H (exec H (Action key body) c))) (c_listeners c)
            else []) @
           map TransactionEnd (c_listeners c)"
proof -
  let ?c2 = "(doIncreaseTransactionLevel c)\<lparr> c_runningActions :=
               insert key (c_runningActions (doIncreaseTransactionLevel c)) \<rparr>"
  have r2: "isRunning ?c2" "1 \<le> c_transactionLevel ?c2" "\<not> c_isDestroyed ?c2"
    using idle by (simp_all add: isRunning_def idle_def doIncrease_fields)
  have t3: "c_trace (execAll H body ?c2) = c_trace c @ map TransactionStart (c_listeners c)"
    using execAll_silent [OF r2(1,2), of H body] idle by (simp add: idle_def doIncrease_fields)
  have q3: "c_notificationIsQueued (execAll H body ?c2) =
            list_ex (requestsNotification {key}) body"
    using execAll_queued [OF diff r2(3) r2(1), of body] idle
    by (simp add: idle_def doIncrease_fields)
  have f3: "c_transactionLevel (execAll H body ?c2) = 1"
       "c_runningActions (execAll H body ?c2) = {key}"
       "c_runningEnv (execAll H body ?c2) = False"
       "c_listeners (execAll H body ?c2) = c_listeners c"
    using frame_execAll [of ?c2 H body] idle
    by (simp_all add: frame_def idle_def doIncrease_fields)
  show ?thesis
    using idle own t3 q3 f3
    by (simp add: idle_def doAction_def lookupRunning_def ctrl_get_def Let_def
        doNotify_fields doDecrease_fields isRunning_def)
qed

lemma set_top_never:
  assumes idle: "idle c" and same: "neverDiffers H"
  shows "c_trace (exec H (Set env body) c) =
           c_trace c @ map TransactionStart (c_listeners c) @
           map TransactionEnd (c_listeners c)"
  using assms
  by (simp add: idle_def neverDiffers_def ctrl_set_def doEnvUpdate_def Let_def
      doIncrease_fields doDecrease_fields)

lemma action_top_never:
  assumes idle: "idle c" and same: "neverDiffers H"
    and own: "key \<notin> set objectPrototypeNames"
  shows "c_trace (exec H (Action key body) c) =
           c_trace c @ map TransactionStart (c_listeners c) @
           map TransactionEnd (c_listeners c)"
proof -
  let ?c2 = "(doIncreaseTransactionLevel c)\<lparr> c_runningActions :=
               insert key (c_runningActions (doIncreaseTransactionLevel c)) \<rparr>"
  have r2: "1 \<le> c_transactionLevel ?c2" "\<not> c_notificationIsQueued ?c2"
    using idle by (simp_all add: idle_def doIncrease_fields)
  have t3: "c_trace (execAll H body ?c2) = c_trace c @ map TransactionStart (c_listeners c)"
           "\<not> c_notificationIsQueued (execAll H body ?c2)"
    using execAll_unheard [OF same r2, of body] idle by (simp_all add: idle_def doIncrease_fields)
  have f3: "c_transactionLevel (execAll H body ?c2) = 1"
       "c_listeners (execAll H body ?c2) = c_listeners c"
    using frame_execAll [of ?c2 H body] idle
    by (simp_all add: frame_def idle_def doIncrease_fields)
  show ?thesis
    using idle own t3 f3
    by (simp add: idle_def doAction_def lookupRunning_def Let_def doDecrease_fields)
qed

lemma idle_new: "idle (newController env initialState)"
  by (simp add: idle_def newController_def)

lemma idle_subscribe: "idle c \<Longrightarrow> idle (snd (ctrl_subscribe c))"
  by (simp add: idle_def ctrl_subscribe_def)

lemma idle_exec:
  assumes "idle c" shows "idle (exec H x c)"
proof -
  have fr: "frame c (exec H x c)" by (rule frame_exec)
  have "\<not> c_notificationIsQueued (exec H x c)"
  proof (cases x)
    case (SetState s)
    then show ?thesis using assms
      by (simp add: idle_def setState_def doStateUpdate_def doNotify_fields doIncrease_fields
          doDecrease_fields isRunning_simps isRunning_def)
  next
    case (Action key body)
    let ?c2 = "(doIncreaseTransactionLevel c)\<lparr> c_runningActions :=
               insert key (c_runningActions (doIncreaseTransactionLevel c)) \<rparr>"
    have "c_runningActions (execAll H body ?c2) = {key}"
       "c_runningEnv (execAll H body ?c2) = False"
      using frame_execAll [of ?c2 H body] assms
      by (simp_all add: frame_def idle_def doIncrease_fields)
    then show ?thesis using assms unfolding Action
      by (simp add: idle_def doAction_def lookupRunning_def Let_def doNotify_fields
          doDecrease_fields isRunning_def)
  next
    case (Set env body)
    let ?c1 = "(doIncreaseTransactionLevel c)\<lparr> c_runningEnv := True \<rparr>"
    have "c_runningActions (execAll H body ?c1) = {}"
      using frame_execAll [of ?c1 H body] assms
      by (simp_all add: frame_def idle_def doIncrease_fields)
    then show ?thesis using assms unfolding Set
      by (simp add: idle_def ctrl_set_def doEnvUpdate_def Let_def doNotify_fields
          doIncrease_fields doDecrease_fields isRunning_def)
  qed
  with fr assms show ?thesis by (simp add: idle_def frame_def)
qed

text \<open>
  An action whose body is three calls of \<open>setState\<close>, each reported as a difference,
  called from outside under a name that the lookup in \<open>$runningActions\<close> does not find.
\<close>

lemma action_three_setStates:
  assumes "\<not> c_isDestroyed c" and "c_runningActions c = {}" and "\<not> c_runningEnv c"
    and "c_transactionLevel c = 0"
    and "key \<notin> set objectPrototypeNames"
    and "doesStateDiffer H (c_env c) (c_state c) s1"
    and "doesStateDiffer H (c_env c) s1 s2"
    and "doesStateDiffer H (c_env c) s2 s3"
  shows "c_trace (exec H (Action key [SetState s1, SetState s2, SetState s3]) c) =
           c_trace c @ map TransactionStart (c_listeners c) @
           map (\<lambda>l. Change l (outputOf H (c_env c) s3)) (c_listeners c) @
           map TransactionEnd (c_listeners c) \<and>
         c_state (exec H (Action key [SetState s1, SetState s2, SetState s3]) c) = s3 \<and>
         c_listeners (exec H (Action key [SetState s1, SetState s2, SetState s3]) c) =
           c_listeners c"
  using assms
  by (simp add: doAction_def lookupRunning_def setState_def doStateUpdate_def doNotify_fields
      isRunning_def doIncrease_fields doDecrease_fields Let_def)

text \<open>
  With hooks that never report a difference an action called from outside delivers no
  output, whatever its name.
\<close>

lemma action_top_never_quiet:
  assumes idle: "idle c" and same: "neverDiffers H"
  shows "filter isChange (c_trace (exec H (Action key body) c)) = filter isChange (c_trace c)"
proof (cases "key \<in> set objectPrototypeNames")
  case True
  then show ?thesis
    using idle by (simp add: idle_def doAction_def lookupRunning_def)
next
  case False
  from action_top_never [OF idle same False, of body]
  show ?thesis by (simp add: filter_map comp_def)
qed

section \<open>Basic facts about the layout controller\<close>

text \<open>
  The names of the modes are distinct and free of commas, so joining the sorted keys
  loses nothing: \<open>modesAreEqual\<close> decides whether two objects have the same keys.
\<close>

lemma inj_modeName: "inj modeName"
proof (rule injI)
  fix a b assume "modeName a = modeName b"
  then show "a = b" by (cases a; cases b) simp_all
qed

lemma modeName_plain: "CHR '','' \<notin> set (modeName m) \<and> modeName m \<noteq> []"
  by (cases m) simp_all

lemma finite_modes: "finite (A :: mode set)"
proof -
  have "\<And>m. m \<in> {Source, View, Transformed, Console}"
  proof -
    fix m show "m \<in> {Source, View, Transformed, Console}" by (cases m) simp_all
  qed
  then have "A \<subseteq> {Source, View, Transformed, Console}" by blast
  moreover have "finite {Source, View, Transformed, Console}" by simp
  ultimately show ?thesis by (rule finite_subset)
qed

lemma takeWhile_join:
  assumes "CHR '','' \<notin> set x"
  shows "takeWhile (\<lambda>ch. ch \<noteq> CHR '','') (join (x # xs)) = x"
  using assms by (cases xs) (auto simp add: takeWhile_append)

lemma dropWhile_join:
  assumes "CHR '','' \<notin> set x"
  shows "dropWhile (\<lambda>ch. ch \<noteq> CHR '','') (join (x # xs)) =
         (if xs = [] then [] else CHR '','' # join xs)"
  using assms by (cases xs) (auto simp add: dropWhile_append)

lemma join_inject:
  assumes "\<forall>x \<in> set xs. CHR '','' \<notin> set x \<and> x \<noteq> []"
    and "\<forall>y \<in> set ys. CHR '','' \<notin> set y \<and> y \<noteq> []"
    and "join xs = join ys"
  shows "xs = ys"
  using assms
proof (induction xs arbitrary: ys)
  case Nil
  then show ?case
  proof (cases ys)
    case Nil then show ?thesis by simp
  next
    case (Cons y ys')
    with Nil.prems have "y \<noteq> []" by simp
    moreover have "join (y # ys') \<noteq> [] " using \<open>y \<noteq> []\<close> by (cases ys') simp_all
    ultimately show ?thesis using Nil.prems Cons by simp
  qed
next
  case (Cons x xs)
  have px: "CHR '','' \<notin> set x" "x \<noteq> []" using Cons.prems(1) by simp_all
  show ?case
  proof (cases ys)
    case Nil
    have "join (x # xs) \<noteq> []" using px by (cases xs) simp_all
    with Cons.prems Nil show ?thesis by simp
  next
    case (Cons y ys')
    have py: "CHR '','' \<notin> set y" "y \<noteq> []" using Cons.prems(2) Cons by simp_all
    have eq: "join (x # xs) = join (y # ys')" using Cons.prems(3) Cons by simp
    have "x = y"
      using takeWhile_join [OF px(1), of xs] takeWhile_join [OF py(1), of ys'] eq by simp
    have d: "(if xs = [] then [] else CHR '','' # join xs) =
             (if ys' = [] then [] else CHR '','' # join ys')"
      using dropWhile_join [OF px(1), of xs] dropWhile_join [OF py(1), of ys'] eq by simp
    have "xs = ys'"
    proof (cases "xs = []")
      case True
      with d show ?thesis by (auto split: if_splits)
    next
      case False
      with d have "ys' \<noteq> []" "join xs = join ys'" by (auto split: if_splits)
      then show ?thesis
        using Cons.IH [of ys'] Cons.prems(1,2) Cons by simp
    qed
    with \<open>x = y\<close> Cons show ?thesis by simp
  qed
qed

lemma modesAreEqual_iff: "modesAreEqual a b \<longleftrightarrow> a = b"
proof
  assume "modesAreEqual a b"
  then have j: "join (sortedKeys a) = join (sortedKeys b)" by (simp add: modesAreEqual_def)
  have fa: "finite (modeName ` a)" "finite (modeName ` b)"
    by (simp_all add: finite_modes)
  have "sortedKeys a = sortedKeys b"
    by (rule join_inject [OF _ _ j]) (auto simp add: sortedKeys_def fa modeName_plain)
  then have "modeName ` a = modeName ` b"
    using fa by (simp add: sortedKeys_def sorted_list_of_set_inject)
  then show "a = b" by (simp add: inj_image_eq_iff [OF inj_modeName])
next
  assume "a = b" then show "modesAreEqual a b" by (simp add: modesAreEqual_def)
qed

lemma singlePane_lessEq: "singlePane w m \<longleftrightarrow> w \<noteq> None \<and> lessEq w m"
  by (cases w; cases m) (simp_all add: singlePane_def)

section \<open>Properties of the binding layer\<close>

text \<open>
  Claim C1. Whatever the key of the bound controller, \<open>handleChange\<close> throws exactly when
  the host's \<open>transactionLevel\<close> is 0 or its \<open>flushLevel\<close> is not 0. When it does not
  throw, the new output is recorded under that key, a change is marked as pending, and
  the rest of the host is as it was.
\<close>

theorem handleChange_throws_iff:
  "(isl (handleChange key newState h) \<longleftrightarrow> transactionLevel h = 0 \<or> flushLevel h \<noteq> 0) \<and>
   (\<not> isl (handleChange key newState h) \<longrightarrow>
      (\<exists>h'. handleChange key newState h = Inr h' \<and>
            state h' key = Some newState \<and> changesExist h' \<and>
            (\<forall>k. k \<noteq> key \<longrightarrow> state h' k = state h k) \<and>
            transactionLevel h' = transactionLevel h \<and> flushLevel h' = flushLevel h \<and>
            unlockQueue h' = unlockQueue h \<and> flushUpdates h' = flushUpdates h \<and>
            unlocked h' = unlocked h))"
  by (simp add: handleChange_def)

theorem handleChange_throws_iff_witness:
  "\<not> isl (handleChange (1::nat) (7::nat)
            ((newHost :: (nat, nat, nat) host)\<lparr> transactionLevel := 1 \<rparr>)) \<and>
   (\<exists>h'. handleChange (1::nat) (7::nat)
            ((newHost :: (nat, nat, nat) host)\<lparr> transactionLevel := 1 \<rparr>) = Inr h' \<and>
         state h' 1 = Some 7 \<and> changesExist h')"
  using handleChange_throws_iff
    [of "1::nat" "7::nat" "(newHost :: (nat, nat, nat) host)\<lparr> transactionLevel := 1 \<rparr>"]
  by (simp add: newHost_def handleChange_def)

text \<open>
  Claim C2. From an idle host (no open transaction, no flush under way), in every
  schedule where the transactions of two controllers overlap as start A, start B, end A,
  end B and each emits one change inside its own transaction: nothing is thrown; exactly
  one flush update is requested, by the last signal (B's end) and by no earlier one; when
  that update completes, the release tokens queued so far are invoked first-in first-out,
  ending with A's and then B's, the queue is empty and \<open>flushLevel\<close> is back to 0.
  And the end of a transaction requests no flush when no change is pending.
\<close>

theorem overlapping_transactions_one_flush:
  assumes "transactionLevel h = 0" and "flushLevel h = 0" and "flushCallbacks h = 0"
  shows "(\<forall>ss \<in> set (overlappingSchedules kA oA uA kB oB uB).
           (\<exists>h'. deliverAll ss h = Inr h' \<and>
                flushUpdates h' = Suc (flushUpdates h) \<and>
                (\<forall>n < length ss. \<exists>hn. deliverAll (take n ss) h = Inr hn \<and>
                                    flushUpdates hn = flushUpdates h) \<and>
                unlocked h' = unlocked h \<and>
                unlocked (updateCompleted h') = unlocked h @ unlockQueue h @ [uA, uB] \<and>
                unlockQueue (updateCompleted h') = [] \<and>
                flushLevel (updateCompleted h') = 0 \<and>
                transactionLevel (updateCompleted h') = 0 \<and>
                flushUpdates (updateCompleted h') = Suc (flushUpdates h))) \<and>
         (\<not> changesExist g \<longrightarrow>
            flushUpdates (handleTransactionEnd u g) = flushUpdates g \<and>
            flushCallbacks (handleTransactionEnd u g) = flushCallbacks g) \<and>
         (\<not> changesExist h \<longrightarrow>
            (\<exists>h'. deliverAll [OnTransactionStart, OnTransactionStart,
                               OnTransactionEnd uA, OnTransactionEnd uB] h = Inr h' \<and>
                  transactionLevel h' = 0 \<and> flushUpdates h' = flushUpdates h))"
  using assms
  by (simp add: overlappingSchedules_def less_Suc_eq imp_disjL all_conj_distrib
        handleChange_def handleTransactionStart_def handleTransactionEnd_def
        updateCompleted_def flushCallback_def Let_def)

theorem overlapping_transactions_one_flush_witness:
  "\<exists>h'. deliverAll [OnTransactionStart, OnChange (1::nat) (10::nat), OnTransactionStart,
                     OnChange 2 20, OnTransactionEnd (100::nat), OnTransactionEnd 200]
            newHost = Inr h' \<and>
        flushUpdates h' = 1 \<and>
        unlocked (updateCompleted h') = [100, 200] \<and>
        unlockQueue (updateCompleted h') = []"
  using overlapping_transactions_one_flush
    [of "newHost :: (nat, nat, nat) host" "1::nat" "10::nat" "100::nat" "2::nat" "20::nat"
        "200::nat" "newHost :: (nat, nat, nat) host" "0::nat"]
  by (simp add: newHost_def overlappingSchedules_def handleChange_def
        handleTransactionStart_def handleTransactionEnd_def updateCompleted_def
        flushCallback_def Let_def)

section \<open>Properties of the controller engine\<close>

text \<open>
  Claim C3. An action whose body calls \<open>setState\<close> three times, each call reported as a
  difference, is meant to deliver one \<open>change\<close> to every listener, with the output of the
  third state. Called under the name \<open>bump\<close> on a fresh controller with one listener it
  does. Called under the name \<open>toString\<close> on the same controller, on which no action is
  running, it is turned away as already running: the lookup \<open>this.$runningActions[key]\<close>
  finds the function that the plain object inherits from \<open>Object.prototype\<close>. The body
  does not run, the state stays what it was and the listener hears nothing. This is what
  the code does on that input; the claim does not hold of it.
\<close>

theorem action_named_toString_is_refused:
  "c_runningActions (snd (ctrl_subscribe (newController (0::nat) (0::nat)))
      :: (nat, nat, nat \<times> nat) controller) = {} \<and>
   c_trace (exec simpleHooks (Action ''bump'' [SetState 1, SetState 2, SetState (3::nat)])
      (snd (ctrl_subscribe (newController (0::nat) (0::nat))))) =
     [TransactionStart 0, Change 0 (0, 3), TransactionEnd 0] \<and>
   c_trace (exec simpleHooks (Action ''toString'' [SetState 1, SetState 2, SetState (3::nat)])
      (snd (ctrl_subscribe (newController (0::nat) (0::nat))))) = [] \<and>
   c_state (exec simpleHooks (Action ''toString'' [SetState 1, SetState 2, SetState (3::nat)])
      (snd (ctrl_subscribe (newController (0::nat) (0::nat))))) = 0 \<and>
   c_log (exec simpleHooks (Action ''toString'' [SetState 1, SetState 2, SetState (3::nat)])
      (snd (ctrl_subscribe (newController (0::nat) (0::nat))))) =
     [ActionAlreadyRunning ''toString'']"
  by (simp add: newController_def ctrl_subscribe_def simpleHooks_def objectPrototypeNames_def
      doAction_def lookupRunning_def setState_def doStateUpdate_def doNotify_fields
      isRunning_def doIncrease_fields doDecrease_fields Let_def)

text \<open>
  Claim C4. Take a controller with no transaction open and any call of \<open>setState\<close>, of an
  action or of \<open>set\<close>, nesting further calls to any depth. If the call is turned away by
  the guard of its entry point, no callback is invoked. Otherwise the callbacks invoked
  are, in this order: \<open>transactionStart\<close> of every listener, once each; then \<open>change\<close>
  callbacks only; then \<open>transactionEnd\<close> of every listener, once each. The transaction
  level is 0 again afterwards and the listeners are the same, so the next call is
  bracketed in the same way.
\<close>

theorem transaction_bracket:
  assumes lev: "c_transactionLevel c = 0"
  shows "c_transactionLevel (exec H x c) = 0 \<and>
         c_listeners (exec H x c) = c_listeners c \<and>
         (if startsTransaction H x c
          then \<exists>cs. list_all isChange cs \<and>
                 c_trace (exec H x c) =
                   c_trace c @ map TransactionStart (c_listeners c) @ cs @
                   map TransactionEnd (c_listeners c)
          else c_trace (exec H x c) = c_trace c)"
proof -
  have fr: "c_transactionLevel (exec H x c) = 0 \<and> c_listeners (exec H x c) = c_listeners c"
    using frame_exec [of c H x] lev by (simp add: frame_def)
  have "if startsTransaction H x c
        then \<exists>cs. list_all isChange cs \<and>
               c_trace (exec H x c) =
                 c_trace c @ map TransactionStart (c_listeners c) @ cs @
                 map TransactionEnd (c_listeners c)
        else c_trace (exec H x c) = c_trace c"
  proof (cases x)
    case (SetState s)
    show ?thesis
      using lev unfolding SetState
      by (auto simp add: setState_def doStateUpdate_def doNotify_fields doIncrease_fields
          doDecrease_fields list_all_iff)
  next
    case (Action key body)
    let ?c2 = "(doIncreaseTransactionLevel c)\<lparr> c_runningActions :=
                 insert key (c_runningActions (doIncreaseTransactionLevel c)) \<rparr>"
    have l2: "c_transactionLevel ?c2 = 1"
      using lev by (simp add: doIncrease_fields)
    have t2: "c_trace ?c2 = c_trace c @ map TransactionStart (c_listeners c)"
      using lev by (simp add: doIncrease_fields)
    from execAll_nested_trace [of ?c2 H body] l2 obtain cs where
      cs: "c_trace (execAll H body ?c2) = c_trace ?c2 @ cs" "list_all isChange cs"
      by auto
    have f3: "c_transactionLevel (execAll H body ?c2) = 1"
         "c_listeners (execAll H body ?c2) = c_listeners c"
      using frame_execAll [of ?c2 H body] l2 by (simp_all add: frame_def doIncrease_fields)
    show ?thesis
      using cs t2 f3 unfolding Action
      by (auto simp add: doAction_def lookupRunning_def Let_def doNotify_fields
          doDecrease_fields list_all_iff)
  next
    case (Set env body)
    let ?c1 = "(doIncreaseTransactionLevel c)\<lparr> c_runningEnv := True \<rparr>"
    have l1: "c_transactionLevel ?c1 = 1"
      using lev by (simp add: doIncrease_fields)
    have t1: "c_trace ?c1 = c_trace c @ map TransactionStart (c_listeners c)"
      using lev by (simp add: doIncrease_fields)
    from execAll_nested_trace [of ?c1 H body] l1 obtain cs where
      cs: "c_trace (execAll H body ?c1) = c_trace ?c1 @ cs" "list_all isChange cs"
      by auto
    have f3: "c_transactionLevel (execAll H body ?c1) = 1"
         "c_listeners (execAll H body ?c1) = c_listeners c"
      using frame_execAll [of ?c1 H body] l1 by (simp_all add: frame_def doIncrease_fields)
    show ?thesis
      using cs t1 f3 lev unfolding Set
      by (auto simp add: ctrl_set_def doEnvUpdate_def Let_def doNotify_fields
          doIncrease_fields doDecrease_fields list_all_iff)
  qed
  with fr show ?thesis by simp
qed


theorem transaction_bracket_witness:
  "\<exists>cs. list_all isChange cs \<and>
     c_trace (exec simpleHooks
        (Action ''outer'' [SetState (1::nat), Action ''inner'' [SetState 2], Set (5::nat) []])
        (snd (ctrl_subscribe (newController (0::nat) (0::nat))))) =
     [TransactionStart 0] @ cs @ [TransactionEnd 0]"
  using transaction_bracket
    [of "snd (ctrl_subscribe (newController (0::nat) (0::nat)))" simpleHooks
        "Action ''outer'' [SetState (1::nat), Action ''inner'' [SetState 2], Set (5::nat) []]"]
  by (simp add: newController_def ctrl_subscribe_def lookupRunning_def
      objectPrototypeNames_def)

text \<open>
  Claim C5, as amended. On a controller that is not destroyed, \<open>set(input)\<close> stores
  \<open>input\<close> as the env exactly when \<open>doesEnvDiffer\<close> reports a difference, as the hook
  of \<open>SimpleController\<close> always does; then \<open>get()\<close> right after returns the output
  computed from \<open>input\<close>. When the hook reports no difference the stored env stays as it
  was, and \<open>get()\<close> returns what it returned before the call.
\<close>

theorem set_replaces_env_iff_differs:
  assumes "\<not> c_isDestroyed c"
  shows "c_env (exec H (Set input body) c) =
           (if doesEnvDiffer H (c_env c) (c_state c) input then input else c_env c) \<and>
         (doesEnvDiffer H (c_env c) (c_state c) input \<longrightarrow>
            ctrl_get H (exec H (Set input body) c) =
              outputOf H input (c_state (exec H (Set input body) c))) \<and>
         (\<not> doesEnvDiffer H (c_env c) (c_state c) input \<longrightarrow>
            ctrl_get H (exec H (Set input body) c) = ctrl_get H c)"
  using assms
  by (simp add: ctrl_set_def doEnvUpdate_def ctrl_get_def Let_def doNotify_fields
      doIncrease_fields doDecrease_fields)

theorem set_replaces_env_iff_differs_witness:
  "c_env (exec simpleHooks (Set (7::nat) []) (newController (0::nat) (0::nat))) = 7 \<and>
   ctrl_get simpleHooks (exec simpleHooks (Set (7::nat) []) (newController (0::nat) (0::nat)))
     = (7, 0)"
  using set_replaces_env_iff_differs
    [of "newController (0::nat) (0::nat)" simpleHooks "7::nat" "[]"]
  by (simp add: simpleHooks_def newController_def ctrl_get_def ctrl_set_def doEnvUpdate_def
      Let_def doNotify_fields doIncrease_fields doDecrease_fields)

text \<open>
  The claim as it was stated fails for a hook that compares part of the input: with the
  env \<open>(1, 1)\<close> stored, \<open>set((1, 2))\<close> leaves \<open>(1, 1)\<close> in place, and \<open>get()\<close> still
  answers from \<open>(1, 1)\<close>.
\<close>

theorem set_always_replaces_env_counterexample:
  "c_env (exec firstComponentHooks (Set (1::nat, 2::nat) [])
            (newController (1::nat, 1::nat) (0::nat))) \<noteq> (1, 2) \<and>
   ctrl_get firstComponentHooks
     (exec firstComponentHooks (Set (1::nat, 2::nat) [])
        (newController (1::nat, 1::nat) (0::nat))) = ((1, 1), 0)"
  by (simp add: firstComponentHooks_def simpleHooks_def newController_def ctrl_get_def
      ctrl_set_def doEnvUpdate_def Let_def doNotify_fields doIncrease_fields
      doDecrease_fields)

text \<open>
  Claim C6, as amended. Take an idle controller. If both hooks always report a
  difference, a call of \<open>set\<close> makes every listener hear \<open>transactionStart\<close>, then one
  \<open>change\<close> with the output \<open>get()\<close> returns after the call, then \<open>transactionEnd\<close>; a
  call of an action whose name is not a property inherited from \<open>Object.prototype\<close>
  makes them hear the same when its body reaches a \<open>setState\<close> or a \<open>set\<close> (directly or
  through an action that is not turned away), and only \<open>transactionStart\<close> and
  \<open>transactionEnd\<close> when it reaches none. If both hooks always report sameness, no call
  of \<open>set\<close> or of an action, whatever its name, delivers a \<open>change\<close>; \<open>set\<close>, and an
  action whose name is not inherited, still make every listener hear \<open>transactionStart\<close>
  and \<open>transactionEnd\<close>. The controller is idle again after the call. What a call of an
  action under an inherited name delivers when the hooks report differences is left out
  of this statement.
\<close>

theorem notifications_per_call:
  assumes "idle c"
  shows "(alwaysDiffers H \<longrightarrow>
            c_trace (exec H (Set env update) c) =
              c_trace c @ map TransactionStart (c_listeners c) @
              map (\<lambda>l. Change l (ctrl_get H (exec H (Set env update) c))) (c_listeners c) @
              map TransactionEnd (c_listeners c) \<and>
            (key \<notin> set objectPrototypeNames \<longrightarrow>
               c_trace (exec H (Action key body) c) =
                 c_trace c @ map TransactionStart (c_listeners c) @
                 (if list_ex (requestsNotification {key}) body
                  then map (\<lambda>l. Change l (ctrl_get H (exec H (Action key body) c)))
                         (c_listeners c)
                  else []) @
                 map TransactionEnd (c_listeners c))) \<and>
         (neverDiffers H \<longrightarrow>
            c_trace (exec H (Set env update) c) =
              c_trace c @ map TransactionStart (c_listeners c) @
              map TransactionEnd (c_listeners c) \<and>
            filter isChange (c_trace (exec H (Action key body) c)) =
              filter isChange (c_trace c) \<and>
            (key \<notin> set objectPrototypeNames \<longrightarrow>
               c_trace (exec H (Action key body) c) =
                 c_trace c @ map TransactionStart (c_listeners c) @
                 map TransactionEnd (c_listeners c))) \<and>
         idle (exec H (Set env update) c) \<and> idle (exec H (Action key body) c)"
  using assms set_top_differs [of c H env update] action_top_differs [of c H key body]
    set_top_never [of c H env update] action_top_never [of c H key body]
    action_top_never_quiet [of c H key body]
    idle_exec [of c H "Set env update"] idle_exec [of c H "Action key body"]
  by blast

theorem notifications_per_call_witness:
  "c_trace (exec simpleHooks (Action ''select'' [SetState (1::nat)])
      (snd (ctrl_subscribe (newController (0::nat) (0::nat))))) =
     [TransactionStart 0, Change 0 (0, 1), TransactionEnd 0] \<and>
   c_trace (exec simpleHooks (Set (4::nat) [])
      (snd (ctrl_subscribe (newController (0::nat) (0::nat))))) =
     [TransactionStart 0, Change 0 (4, 0), TransactionEnd 0] \<and>
   c_trace (exec neverDifferHooks (Set (4::nat) [])
      (snd (ctrl_subscribe (newController (0::nat) (0::nat))))) =
     [TransactionStart 0, TransactionEnd 0] \<and>
   c_trace (exec neverDifferHooks (Action ''select'' [SetState (1::nat)])
      (snd (ctrl_subscribe (newController (0::nat) (0::nat))))) =
     [TransactionStart 0, TransactionEnd 0]"
  using notifications_per_call
    [of "snd (ctrl_subscribe (newController (0::nat) (0::nat)))" simpleHooks "4::nat" "[]"
        "''select''" "[SetState (1::nat)]"]
    notifications_per_call
    [of "snd (ctrl_subscribe (newController (0::nat) (0::nat)))" neverDifferHooks "4::nat" "[]"
        "''select''" "[SetState (1::nat)]"]
  by (simp add: idle_def alwaysDiffers_def neverDiffers_def neverDifferHooks_def
      simpleHooks_def newController_def ctrl_subscribe_def ctrl_get_def ctrl_set_def
      doEnvUpdate_def doAction_def lookupRunning_def objectPrototypeNames_def setState_def
      doStateUpdate_def Let_def isRunning_def doNotify_fields doIncrease_fields
      doDecrease_fields)

text \<open>
  The claim as it was stated has every action call deliver one notification when the
  hooks always report a difference. An action whose body calls nothing delivers none.
\<close>

theorem every_action_notifies_counterexample:
  "alwaysDiffers (simpleHooks :: (nat, nat, nat \<times> nat) hooks) \<and>
   c_trace (exec simpleHooks (Action ''noop'' [])
      (snd (ctrl_subscribe (newController (0::nat) (0::nat))))) =
     [TransactionStart 0, TransactionEnd 0]"
  by (simp add: alwaysDiffers_def simpleHooks_def newController_def ctrl_subscribe_def
      doAction_def lookupRunning_def objectPrototypeNames_def Let_def doIncrease_fields
      doDecrease_fields)

text \<open>
  Claim C7, as amended. \<open>destroy()\<close> empties the listener list, marks the instance as
  destroyed, keeps state and env, and doing it twice is the same as doing it once.
  Whatever operations follow, in whatever number and order, the instance stays destroyed,
  state and env stay what they were at destruction, \<open>get()\<close> keeps returning the output
  computed from them, and no callback of any listener is invoked. The log grows by one
  error for each call of \<open>set\<close>, \<open>setState\<close> or an action, and by nothing for \<open>get\<close>,
  \<open>subscribe\<close>, an unsubscribe function or \<open>destroy\<close>. \<open>subscribe\<close> on the destroyed
  instance appends the listener and logs nothing. No operation has a failing outcome:
  the engine has no \<open>throw\<close>.
\<close>

theorem destroyed_controller_is_inert:
  "c_isDestroyed (ctrl_destroy c) \<and> c_listeners (ctrl_destroy c) = [] \<and>
   c_state (ctrl_destroy c) = c_state c \<and> c_env (ctrl_destroy c) = c_env c \<and>
   ctrl_destroy (ctrl_destroy c) = ctrl_destroy c \<and>
   c_listeners (snd (ctrl_subscribe (ctrl_destroy c))) = [c_nextListener c] \<and>
   c_log (snd (ctrl_subscribe (ctrl_destroy c))) = c_log c \<and>
   c_isDestroyed (performAll H ps (ctrl_destroy c)) \<and>
   c_state (performAll H ps (ctrl_destroy c)) = c_state c \<and>
   c_env (performAll H ps (ctrl_destroy c)) = c_env c \<and>
   ctrl_get H (performAll H ps (ctrl_destroy c)) = ctrl_get H c \<and>
   c_trace (performAll H ps (ctrl_destroy c)) = c_trace c \<and>
   c_log (performAll H ps (ctrl_destroy c)) = c_log c @ concat (map refusal ps)"
proof -
  have d: "c_isDestroyed (ctrl_destroy c)" by (simp add: ctrl_destroy_def)
  have e: "c_state (ctrl_destroy c) = c_state c" "c_env (ctrl_destroy c) = c_env c"
          "c_trace (ctrl_destroy c) = c_trace c" "c_log (ctrl_destroy c) = c_log c"
          "c_listeners (ctrl_destroy c) = []" "ctrl_destroy (ctrl_destroy c) = ctrl_destroy c"
          "c_listeners (snd (ctrl_subscribe (ctrl_destroy c))) = [c_nextListener c]"
          "c_log (snd (ctrl_subscribe (ctrl_destroy c))) = c_log c"
    by (simp_all add: ctrl_destroy_def ctrl_subscribe_def)
  from performAll_destroyed [OF d, of H ps] d e show ?thesis
    by (simp add: ctrl_get_def)
qed

theorem destroyed_controller_is_inert_witness:
  "c_state (performAll simpleHooks
      [Call (Set (5::nat) []), Call (Action ''a'' [SetState (1::nat)]), Get, Subscribe,
       Destroy, Call (SetState 2)]
      (ctrl_destroy (newController (0::nat) (0::nat)))) = 0 \<and>
   c_trace (performAll simpleHooks
      [Call (Set (5::nat) []), Call (Action ''a'' [SetState (1::nat)]), Get, Subscribe,
       Destroy, Call (SetState 2)]
      (ctrl_destroy (newController (0::nat) (0::nat)))) = [] \<and>
   c_log (performAll simpleHooks
      [Call (Set (5::nat) []), Call (Action ''a'' [SetState (1::nat)]), Get, Subscribe,
       Destroy, Call (SetState 2)]
      (ctrl_destroy (newController (0::nat) (0::nat)))) =
     [SetOnDestroyed, ActionOnDestroyed, SetStateOnDestroyed]"
  using destroyed_controller_is_inert
    [of "newController (0::nat) (0::nat)" simpleHooks
        "[Call (Set (5::nat) []), Call (Action ''a'' [SetState (1::nat)]), Get, Subscribe,
          Destroy, Call (SetState 2)]"]
  by (simp add: newController_def)

text \<open>
  The claim as it was stated has every later call log an error and change nothing. On a
  destroyed instance \<open>get\<close>, \<open>subscribe\<close> and \<open>destroy\<close> log nothing, and \<open>subscribe\<close>
  does add the listener.
\<close>

theorem destroyed_every_call_logs_counterexample:
  "c_log (perform simpleHooks Get
      (ctrl_destroy (newController (0::nat) (0::nat)
         :: (nat, nat, nat \<times> nat) controller))) = [] \<and>
   c_log (perform simpleHooks Subscribe
      (ctrl_destroy (newController (0::nat) (0::nat)
         :: (nat, nat, nat \<times> nat) controller))) = [] \<and>
   c_listeners (perform simpleHooks Subscribe
      (ctrl_destroy (newController (0::nat) (0::nat)
         :: (nat, nat, nat \<times> nat) controller))) = [0] \<and>
   c_log (perform simpleHooks Destroy
      (ctrl_destroy (newController (0::nat) (0::nat)
         :: (nat, nat, nat \<times> nat) controller))) = []"
  by (simp add: ctrl_destroy_def ctrl_subscribe_def newController_def)

text \<open>
  Claim C8. A call of the action \<open>key\<close> on an instance where \<open>key\<close> is marked as running
  leaves the instance as it was except for one more logged error, whatever the body is:
  state, env and callbacks invoked are unchanged. While a body runs, an action that was
  marked as running is still marked after every call the body makes. So the outcome of
  an action is the same when every invocation of that action nested in its own body, at
  any depth, has its body taken out: none of them runs.
\<close>

theorem running_action_rejected:
  "(key \<in> c_runningActions c \<longrightarrow>
      doAction H key fn c =
        c\<lparr> c_log := c_log c @
               [if c_isDestroyed c then ActionOnDestroyed else ActionAlreadyRunning key] \<rparr>) \<and>
   (\<forall>c'. key \<in> c_runningActions c' \<longrightarrow>
      key \<in> c_runningActions (execAll H body c')) \<and>
   exec H (Action key body) c = exec H (Action key (map (withoutReentry key) body)) c"
proof -
  have a: "key \<in> c_runningActions c \<longrightarrow>
      doAction H key fn c =
        c\<lparr> c_log := c_log c @
               [if c_isDestroyed c then ActionOnDestroyed else ActionAlreadyRunning key] \<rparr>"
    by (simp add: doAction_def lookupRunning_def)
  have b: "\<forall>c'. key \<in> c_runningActions c' \<longrightarrow> key \<in> c_runningActions (execAll H body c')"
    using frame_execAll [of _ H body] by (simp add: frame_def)
  have "execAll H (map (withoutReentry key) body)
          ((doIncreaseTransactionLevel c)\<lparr> c_runningActions :=
             insert key (c_runningActions (doIncreaseTransactionLevel c)) \<rparr>) =
        execAll H body
          ((doIncreaseTransactionLevel c)\<lparr> c_runningActions :=
             insert key (c_runningActions (doIncreaseTransactionLevel c)) \<rparr>)"
    by (rule execAll_withoutReentry) simp
  then have "doAction H key (\<lambda>c'. execAll H (map (withoutReentry key) body) c') c =
             doAction H key (\<lambda>c'. execAll H body c') c"
    by (rule doAction_cong_body)
  then have c: "exec H (Action key body) c =
                exec H (Action key (map (withoutReentry key) body)) c"
    by simp
  from a b c show ?thesis by blast
qed

theorem running_action_rejected_witness:
  "exec simpleHooks (Action ''a'' [SetState (1::nat), Action ''a'' [SetState 2]])
     (newController (0::nat) (0::nat)) =
   exec simpleHooks (Action ''a'' [SetState (1::nat), Action ''a'' []])
     (newController (0::nat) (0::nat)) \<and>
   doAction simpleHooks ''a'' (setState simpleHooks (2::nat))
     ((newController (0::nat) (0::nat))\<lparr> c_runningActions := {''a''} \<rparr>) =
   (newController (0::nat) (0::nat))
     \<lparr> c_runningActions := {''a''}, c_log := [ActionAlreadyRunning ''a''] \<rparr>"
  using running_action_rejected
    [of "''a''" "(newController (0::nat) (0::nat))\<lparr> c_runningActions := {''a''} \<rparr>"
        simpleHooks "setState simpleHooks (2::nat)" "[]"]
    running_action_rejected
    [of "''a''" "newController (0::nat) (0::nat)"
        simpleHooks "\<lambda>c. c" "[SetState (1::nat), Action ''a'' [SetState 2]]"]
  by (simp add: newController_def)

section \<open>Properties of the batch instantiation helper\<close>

text \<open>
  Claim C9. Called with an object that has no keys, \<open>instantiateDefaultControllers\<close>
  is meant to warn and go on. It calls \<open>console.warning\<close>, which a standard console does
  not have (the method is \<open>console.warn\<close>, as \<open>subscribe\<close> in the same file uses it), so
  the call throws a \<open>TypeError\<close> and no decorator is returned. This is what the code
  does on that input; the claim does not hold of it.
\<close>

theorem zero_keys_throws:
  "instantiateDefaultControllers standardConsole
     (ClassMap ([] :: (string \<times> nat candidate) list)) =
   Inl (TypeError ''console.warning is not a function'') \<and>
   instantiateDefaultControllers (''warning'' # standardConsole)
     (ClassMap ([] :: (string \<times> nat candidate) list)) =
   Inr ([(''warning'', ''instantiateDefaultControllers: called without any classes'')], [])"
  by (simp add: instantiateDefaultControllers_def consoleCall_def standardConsole_def)

section \<open>Properties of the layout controller\<close>

text \<open>
  Claim C10. In both versions the mode keys computed are: the primary mode alone when
  the width is defined and at most \<open>maxSinglePaneWidth\<close>; otherwise \<open>source\<close> with the
  primary mode when that is not \<open>source\<close>, and \<open>source\<close> with \<open>defaultSecondary\<close> when it
  is. So there are never more than two keys, and \<open>source\<close> is among them whenever two
  panes are shown. In the version on \<open>SimpleController\<close>, a \<open>_recalc\<close> that returns has
  stored the computed keys, and it has called the listeners only if the stored keys
  were a different set before; it then called each listener once, in order, with the
  new keys. \<open>_recalc\<close> returns whenever \<open>this.modes\<close> and \<open>this.listeners\<close> are defined.
\<close>

theorem dual_mode_key_set:
  "fst (dualModeOutput props primary) =
     (if singlePane (width props) (maxSinglePaneWidth props) then {primary}
      else if primary \<noteq> Source then {Source, primary}
      else {Source, defaultSecondary props}) \<and>
   newModes r =
     (if singlePane (dm_width r) (dm_maxSinglePaneWidth r) then {dm_primary r}
      else if dm_primary r \<noteq> Source then {Source, dm_primary r}
      else {Source, dm_defaultSecondary r}) \<and>
   card (fst (dualModeOutput props primary)) \<le> 2 \<and> card (newModes r) \<le> 2 \<and>
   (\<not> singlePane (width props) (maxSinglePaneWidth props) \<longrightarrow>
      Source \<in> fst (dualModeOutput props primary)) \<and>
   (\<not> singlePane (dm_width r) (dm_maxSinglePaneWidth r) \<longrightarrow> Source \<in> newModes r) \<and>
   (\<forall>r'. recalc r = Inr r' \<longrightarrow>
      dm_modes r' = Some (newModes r) \<and>
      (dm_heard r' \<noteq> dm_heard r \<longrightarrow> dm_modes r \<noteq> Some (newModes r)) \<and>
      (\<forall>ls. dm_listeners r = Some ls \<longrightarrow>
         dm_heard r' = dm_heard r @
           (if dm_modes r = Some (newModes r) then []
            else map (\<lambda>l. (l, newModes r)) ls))) \<and>
   (dm_modes r \<noteq> None \<and> dm_listeners r \<noteq> None \<longrightarrow> (\<exists>r'. recalc r = Inr r'))"
proof -
  have a: "fst (dualModeOutput props primary) =
     (if singlePane (width props) (maxSinglePaneWidth props) then {primary}
      else if primary \<noteq> Source then {Source, primary}
      else {Source, defaultSecondary props})"
    by (auto simp add: dualModeOutput_def Let_def singlePane_lessEq)
  have b: "newModes r =
     (if singlePane (dm_width r) (dm_maxSinglePaneWidth r) then {dm_primary r}
      else if dm_primary r \<noteq> Source then {Source, dm_primary r}
      else {Source, dm_defaultSecondary r})"
    by (auto simp add: newModes_def singlePane_lessEq)
  have c: "card (fst (dualModeOutput props primary)) \<le> 2" "card (newModes r) \<le> 2"
    unfolding a b by (simp_all add: card_insert_if)
  have d: "\<not> singlePane (width props) (maxSinglePaneWidth props) \<longrightarrow>
      Source \<in> fst (dualModeOutput props primary)"
     "\<not> singlePane (dm_width r) (dm_maxSinglePaneWidth r) \<longrightarrow> Source \<in> newModes r"
    unfolding a b by simp_all
  have e: "\<forall>r'. recalc r = Inr r' \<longrightarrow>
      dm_modes r' = Some (newModes r) \<and>
      (dm_heard r' \<noteq> dm_heard r \<longrightarrow> dm_modes r \<noteq> Some (newModes r)) \<and>
      (\<forall>ls. dm_listeners r = Some ls \<longrightarrow>
         dm_heard r' = dm_heard r @
           (if dm_modes r = Some (newModes r) then []
            else map (\<lambda>l. (l, newModes r)) ls))"
    by (auto simp add: recalc_def modesAreEqual_iff split: option.splits if_splits)
  have f: "dm_modes r \<noteq> None \<and> dm_listeners r \<noteq> None \<longrightarrow> (\<exists>r'. recalc r = Inr r')"
    by (auto simp add: recalc_def split: option.splits)
  from a b c d e f show ?thesis by blast
qed

theorem dual_mode_key_set_witness:
  "fst (dualModeOutput \<lparr> defaultSecondary = View, defaultMode = Source,
                         maxSinglePaneWidth = Some 999, width = Some 1200 \<rparr> Source) =
     {Source, View} \<and>
   fst (dualModeOutput \<lparr> defaultSecondary = View, defaultMode = Source,
                         maxSinglePaneWidth = Some 999, width = Some 500 \<rparr> Console) =
     {Console} \<and>
   recalc \<lparr> dm_width = Some 500, dm_maxSinglePaneWidth = Some 999, dm_primary = View,
            dm_defaultSecondary = View, dm_modes = Some {Source, View},
            dm_listeners = Some [0], dm_heard = [] \<rparr> =
     Inr \<lparr> dm_width = Some 500, dm_maxSinglePaneWidth = Some 999, dm_primary = View,
           dm_defaultSecondary = View, dm_modes = Some {View},
           dm_listeners = Some [0], dm_heard = [(0, {View})] \<rparr>"
  using dual_mode_key_set
    [of "\<lparr> defaultSecondary = View, defaultMode = Source,
            maxSinglePaneWidth = Some 999, width = Some 1200 \<rparr>" Source
        "\<lparr> dm_width = Some 500, dm_maxSinglePaneWidth = Some 999, dm_primary = View,
            dm_defaultSecondary = View, dm_modes = Some {Source, View},
            dm_listeners = Some [0], dm_heard = [] \<rparr>"]
    dual_mode_key_set
    [of "\<lparr> defaultSecondary = View, defaultMode = Source,
            maxSinglePaneWidth = Some 999, width = Some 500 \<rparr>" Console
        "\<lparr> dm_width = Some 500, dm_maxSinglePaneWidth = Some 999, dm_primary = View,
            dm_defaultSecondary = View, dm_modes = Some {Source, View},
            dm_listeners = Some [0], dm_heard = [] \<rparr>"]
  by (simp add: singlePane_def recalc_def newModes_def modesAreEqual_iff)

end
